theory Spec2Isabelle
  imports Complex_Main
begin

section \<open>Configuration and geometry of the controller (controller.js)\<close>

text \<open>
  The controller keeps its tunables in one global object \<open>CONFIG\<close>. The model passes the
  configuration explicitly; \<open>CONFIG\<close> is the value the source declares. JavaScript numbers
  are modelled as reals (exact arithmetic), integers that index arrays as \<open>nat\<close> or \<open>int\<close>.
  Where the code floors a product, and in the statistics of \<open>calculateAdaptiveThreshold\<close>
  whose variance can round below zero, the operations are rounded to doubles
  (\<open>to_double\<close> below).
\<close>

record config =
  scanFlashDuration :: nat
  scanCooldown :: nat
  brightnessThreshold :: real
  minBlobSize :: nat
  animationFPS :: nat
  canvasSize :: nat
  edgeDetectionPasses :: nat
  morphologyKernel :: nat
  gaussianBlurRadius :: nat
  minNormalizedArea :: real
  maxNormalizedArea :: real

definition CONFIG :: config where
  "CONFIG = \<lparr> scanFlashDuration = 400, scanCooldown = 250, brightnessThreshold = 40,
     minBlobSize = 30, animationFPS = 30, canvasSize = 200, edgeDetectionPasses = 2,
     morphologyKernel = 3, gaussianBlurRadius = 2,
     minNormalizedArea = 2 / 100, maxNormalizedArea = 65 / 100 \<rparr>"

text \<open>A rectangle \<open>{x, y, width, height}\<close> and a point \<open>{x, y}\<close> of the source.\<close>

record rect =
  rect_x :: real
  rect_y :: real
  rect_width :: real
  rect_height :: real

record point =
  point_x :: real
  point_y :: real

definition normalizeRectToSquare :: "rect \<Rightarrow> nat \<Rightarrow> nat \<Rightarrow> rect" where
  "normalizeRectToSquare r w h =
     (if w \<ge> h then
        (let scale = real h / real w; padY = (1 - scale) / 2 in
         \<lparr> rect_x = rect_x r / real w,
           rect_y = (rect_y r / real h) * scale + padY,
           rect_width = rect_width r / real w,
           rect_height = (rect_height r / real h) * scale \<rparr>)
      else
        (let scale = real w / real h; padX = (1 - scale) / 2 in
         \<lparr> rect_x = (rect_x r / real w) * scale + padX,
           rect_y = rect_y r / real h,
           rect_width = (rect_width r / real w) * scale,
           rect_height = rect_height r / real h \<rparr>))"

definition normalizePointToSquare :: "real \<Rightarrow> real \<Rightarrow> nat \<Rightarrow> nat \<Rightarrow> point" where
  "normalizePointToSquare px py w h =
     (if w \<ge> h then
        (let scale = real h / real w; padY = (1 - scale) / 2 in
         \<lparr> point_x = px / real w, point_y = (py / real h) * scale + padY \<rparr>)
      else
        (let scale = real w / real h; padX = (1 - scale) / 2 in
         \<lparr> point_x = (px / real w) * scale + padX, point_y = py / real h \<rparr>))"

definition denormalizeRectFromSquare :: "rect \<Rightarrow> nat \<Rightarrow> nat \<Rightarrow> rect" where
  "denormalizeRectFromSquare r w h =
     (if w \<ge> h then
        (let scale = real h / real w; padY = (1 - scale) / 2 in
         \<lparr> rect_x = rect_x r * real w,
           rect_y = ((rect_y r - padY) / scale) * real h,
           rect_width = rect_width r * real w,
           rect_height = (rect_height r / scale) * real h \<rparr>)
      else
        (let scale = real w / real h; padX = (1 - scale) / 2 in
         \<lparr> rect_x = ((rect_x r - padX) / scale) * real w,
           rect_y = rect_y r * real h,
           rect_width = (rect_width r / scale) * real w,
           rect_height = rect_height r * real h \<rparr>))"

definition clampRect :: "config \<Rightarrow> rect \<Rightarrow> rect" where
  "clampRect cfg r =
     \<lparr> rect_x = min (max (rect_x r) 0) 1,
       rect_y = min (max (rect_y r) 0) 1,
       rect_width = min (max (rect_width r) (minNormalizedArea cfg)) (maxNormalizedArea cfg),
       rect_height = min (max (rect_height r) (minNormalizedArea cfg)) (maxNormalizedArea cfg) \<rparr>"


section \<open>Frames and typed arrays\<close>

text \<open>
  An \<open>ImageData\<close> frame: width, height and the \<open>Uint8ClampedArray\<close> of RGBA bytes in
  row-major order. The browser only builds frames with positive dimensions, four bytes per
  pixel and bytes up to 255; \<open>wf_frame\<close> states that.
\<close>

record frame =
  frame_width :: nat
  frame_height :: nat
  frame_data :: "nat list"

definition wf_frame :: "frame \<Rightarrow> bool" where
  "wf_frame f \<longleftrightarrow> 0 < frame_width f \<and> 0 < frame_height f
     \<and> length (frame_data f) = 4 * frame_width f * frame_height f
     \<and> (\<forall>v \<in> set (frame_data f). v \<le> 255)"

datatype js_error = TypeError | IndexSizeError

text \<open>\<open>Math.round\<close>: the nearest integer, a tie going up.\<close>

definition Math_round :: "real \<Rightarrow> int" where
  "Math_round v = \<lfloor>v + 1 / 2\<rfloor>"

text \<open>Storing an integer into a \<open>Uint8ClampedArray\<close> clamps it to 0..255.\<close>

definition uint8_clamped :: "int \<Rightarrow> nat" where
  "uint8_clamped v = nat (min 255 (max 0 v))"

text \<open>
  The nested loops \<open>for y < height, for x < width: result[y * width + x] = f(x, y)\<close> on a
  typed array: a write beyond the array's length is ignored, as \<open>list_update\<close> does.
\<close>

definition fill2d :: "nat \<Rightarrow> nat \<Rightarrow> (nat \<Rightarrow> nat \<Rightarrow> 'a) \<Rightarrow> 'a list \<Rightarrow> 'a list" where
  "fill2d w h f init =
     fold (\<lambda>y res. fold (\<lambda>x res. res[y * w + x := f x y]) [0..<w] res) [0..<h] init"

text \<open>\<open>Math.min(Math.max(v, lo), hi)\<close> on integers.\<close>

definition clampi :: "int \<Rightarrow> int \<Rightarrow> int \<Rightarrow> int" where
  "clampi v lo hi = min (max v lo) hi"


section \<open>Double-precision numbers\<close>

text \<open>
  A JavaScript number is an IEEE 754 double: a 53-bit integer times a power of two. An
  arithmetic operation on doubles returns the double nearest to the exact result, a tie
  going to the even one. \<open>to_double r\<close> is that double for a real \<open>r\<close>: with
  \<open>binade r\<close> the exponent \<open>e\<close> such that \<open>2^e \<le> |r| < 2^(e + 1)\<close>, the doubles from
  \<open>2^e\<close> to \<open>2^(e + 1)\<close> are the multiples of \<open>2^(e - 52)\<close>. The exponent is not bounded
  here: overflow to \<open>Infinity\<close> and the subnormal numbers are left out, the values below
  are far from both. A decimal literal of the source denotes \<open>to_double\<close> of its value.
\<close>

fun bit_length :: "nat \<Rightarrow> nat" where
  "bit_length n = (if n = 0 then 0 else Suc (bit_length (n div 2)))"

declare bit_length.simps [simp del]

definition pow2 :: "int \<Rightarrow> real" where
  "pow2 e = (if 0 \<le> e then 2 ^ nat e else 1 / 2 ^ nat (- e))"

definition binade :: "real \<Rightarrow> int" where
  "binade r =
     (let a = \<bar>r\<bar> in
      if 1 \<le> a then int (bit_length (nat \<lfloor>a\<rfloor>)) - 1
      else - int (bit_length (nat (\<lceil>1 / a\<rceil> - 1))))"

definition round_half_even :: "real \<Rightarrow> int" where
  "round_half_even r =
     (let f = \<lfloor>r\<rfloor>; d = r - of_int f in
      if d < 1 / 2 then f else if 1 / 2 < d then f + 1 else if even f then f else f + 1)"

definition to_double :: "real \<Rightarrow> real" where
  "to_double r =
     (if r = 0 then 0
      else (let ulp = pow2 (binade r - 52) in of_int (round_half_even (r / ulp)) * ulp))"


section \<open>Frame averaging\<close>

text \<open>
  The sum of channel \<open>i\<close> over the frames. Reading past the end of a frame's data gives
  \<open>undefined\<close>, which makes the sum \<open>NaN\<close> (\<open>None\<close>) for good.
\<close>

definition channel_sum :: "frame list \<Rightarrow> nat \<Rightarrow> real option" where
  "channel_sum frames i =
     fold (\<lambda>f acc. case acc of None \<Rightarrow> None
                    | Some s \<Rightarrow> if i < length (frame_data f)
                                then Some (s + real (frame_data f ! i)) else None)
          frames (Some 0)"

text \<open>
  \<open>frames[0].width\<close> throws on an empty list, \<open>new ImageData\<close> on a zero dimension. A
  \<open>NaN\<close> stored in the clamped array is 0.
\<close>

definition averageFrames :: "frame list \<Rightarrow> js_error + frame" where
  "averageFrames frames =
     (case frames of
        [] \<Rightarrow> Inl TypeError
      | f0 # _ \<Rightarrow>
          (let width = frame_width f0; height = frame_height f0; numFrames = length frames in
           if width = 0 \<or> height = 0 then Inl IndexSizeError
           else Inr \<lparr> frame_width = width, frame_height = height,
                  frame_data =
                    map (\<lambda>i. case channel_sum frames i of
                                 None \<Rightarrow> 0
                               | Some s \<Rightarrow> uint8_clamped (Math_round (s / real numFrames)))
                        [0..<4 * width * height] \<rparr>))"

text \<open>The spec's words: the arithmetic mean of channel \<open>i\<close> across the frames.\<close>

definition spec_channel_mean :: "frame list \<Rightarrow> nat \<Rightarrow> real" where
  "spec_channel_mean frames i =
     (\<Sum>f\<leftarrow>frames. real (frame_data f ! i)) / real (length frames)"


section \<open>Adaptive threshold\<close>

definition step_stats :: "real \<Rightarrow> real \<times> real \<times> nat \<Rightarrow> real \<times> real \<times> nat" where
  "step_stats v acc =
     (case acc of (s, sumSq, cnt) \<Rightarrow>
        if v > 5 then (s + v, sumSq + v * v, cnt + 1) else (s, sumSq, cnt))"

definition calculateAdaptiveThreshold :: "config \<Rightarrow> real list \<Rightarrow> nat \<Rightarrow> nat \<Rightarrow> real" where
  "calculateAdaptiveThreshold cfg data w h =
     (case fold step_stats data (0, 0, 0) of (s, sumSq, cnt) \<Rightarrow>
        if cnt = 0 then brightnessThreshold cfg
        else
          (let mean = s / real cnt;
               variance = (sumSq / real cnt) - (mean * mean);
               stdDev = sqrt variance
           in max (brightnessThreshold cfg) (mean + stdDev * 1.5)))"

text \<open>
  The spec's words: the entries above the noise floor, their mean and their (population)
  standard deviation.
\<close>

definition above_noise_floor :: "real list \<Rightarrow> real list" where
  "above_noise_floor data = filter (\<lambda>v. v > 5) data"

definition spec_mean :: "real list \<Rightarrow> real" where
  "spec_mean xs = sum_list xs / real (length xs)"

definition spec_stdDev :: "real list \<Rightarrow> real" where
  "spec_stdDev xs = sqrt (sum_list (map (\<lambda>v. (v - spec_mean xs)\<^sup>2) xs) / real (length xs))"

text \<open>
  \<open>calculateAdaptiveThreshold\<close> as the code runs it, every operation rounded to a double.
  The entries of the \<open>Float32Array\<close> are doubles already. \<open>Math.sqrt\<close> of a negative
  number is \<open>NaN\<close>, and so are \<open>NaN * 1.5\<close>, \<open>mean + NaN\<close> and \<open>Math.max\<close> of anything
  and \<open>NaN\<close>: the result \<open>None\<close>. The detection pipeline above keeps the exact
  \<open>calculateAdaptiveThreshold\<close>.
\<close>

definition step_stats_double :: "real \<Rightarrow> real \<times> real \<times> nat \<Rightarrow> real \<times> real \<times> nat" where
  "step_stats_double v acc =
     (case acc of (s, sumSq, cnt) \<Rightarrow>
        if v > 5 then (to_double (s + v), to_double (sumSq + to_double (v * v)), cnt + 1)
        else (s, sumSq, cnt))"

definition calculateAdaptiveThreshold_double ::
  "config \<Rightarrow> real list \<Rightarrow> nat \<Rightarrow> nat \<Rightarrow> real option" where
  "calculateAdaptiveThreshold_double cfg data w h =
     (case fold step_stats_double data (0, 0, 0) of (s, sumSq, cnt) \<Rightarrow>
        if cnt = 0 then Some (brightnessThreshold cfg)
        else
          (let mean = to_double (s / real cnt);
               variance = to_double (to_double (sumSq / real cnt) - to_double (mean * mean))
           in if variance < 0 then None
              else (let stdDev = to_double (sqrt variance)
                    in Some (max (brightnessThreshold cfg)
                               (to_double (mean + to_double (stdDev * 1.5)))))))"

text \<open>Test data: a map of 8 x 8 entries that all hold the float 197.10499572753906.\<close>

definition uniform_map :: "real list" where
  "uniform_map = replicate 64 (12917473 / 65536)"


section \<open>Morphology\<close>

text \<open>
  A mask is a \<open>Uint8Array\<close>. Reading it out of range gives \<open>undefined\<close>; \<open>Math.max\<close> and
  \<open>Math.min\<close> with \<open>undefined\<close> are \<open>NaN\<close> (\<open>None\<close>) from then on, and a \<open>NaN\<close> stored in
  a \<open>Uint8Array\<close> is 0.
\<close>

definition u8_get :: "nat list \<Rightarrow> int \<Rightarrow> nat option" where
  "u8_get a i = (if 0 \<le> i \<and> nat i < length a then Some (a ! nat i) else None)"

definition js_max :: "nat option \<Rightarrow> nat option \<Rightarrow> nat option" where
  "js_max a b = (case (a, b) of (Some u, Some v) \<Rightarrow> Some (max u v) | _ \<Rightarrow> None)"

definition js_min :: "nat option \<Rightarrow> nat option \<Rightarrow> nat option" where
  "js_min a b = (case (a, b) of (Some u, Some v) \<Rightarrow> Some (min u v) | _ \<Rightarrow> None)"

definition to_uint8 :: "nat option \<Rightarrow> nat" where
  "to_uint8 v = (case v of None \<Rightarrow> 0 | Some u \<Rightarrow> u mod 256)"

definition neighbourhood ::
  "(nat option \<Rightarrow> nat option \<Rightarrow> nat option) \<Rightarrow> nat option \<Rightarrow> nat list \<Rightarrow> nat \<Rightarrow> nat \<Rightarrow> int
     \<Rightarrow> nat \<Rightarrow> nat \<Rightarrow> nat option" where
  "neighbourhood opr start msk w h half x y =
     fold (\<lambda>ky acc.
        fold (\<lambda>kx acc.
           (let ny = clampi (int y + ky) 0 (int h - 1);
                nx = clampi (int x + kx) 0 (int w - 1)
            in opr acc (u8_get msk (ny * int w + nx))))
          [- half..half] acc)
       [- half..half] start"

definition dilate :: "nat list \<Rightarrow> nat \<Rightarrow> nat \<Rightarrow> nat \<Rightarrow> nat list" where
  "dilate msk w h kernelSize =
     (let half = int (kernelSize div 2) in
      fill2d w h (\<lambda>x y. to_uint8 (neighbourhood js_max (Some 0) msk w h half x y))
        (replicate (length msk) 0))"

definition erode :: "nat list \<Rightarrow> nat \<Rightarrow> nat \<Rightarrow> nat \<Rightarrow> nat list" where
  "erode msk w h kernelSize =
     (let half = int (kernelSize div 2) in
      fill2d w h (\<lambda>x y. to_uint8 (neighbourhood js_min (Some 255) msk w h half x y))
        (replicate (length msk) 0))"

definition binary_mask :: "nat list \<Rightarrow> bool" where
  "binary_mask msk \<longleftrightarrow> (\<forall>v \<in> set msk. v = 0 \<or> v = 255)"


section \<open>Bounding-box refinement\<close>

record box =
  box_minX :: int
  box_maxX :: int
  box_minY :: int
  box_maxY :: int

text \<open>\<open>diffMap[i] > t\<close>: false when the read is out of range (\<open>undefined > t\<close>).\<close>

definition f32_gt :: "real list \<Rightarrow> int \<Rightarrow> real \<Rightarrow> bool" where
  "f32_gt a i t \<longleftrightarrow> 0 \<le> i \<and> nat i < length a \<and> a ! nat i > t"

definition refine_step :: "real list \<Rightarrow> nat \<Rightarrow> int \<Rightarrow> int \<Rightarrow> box \<Rightarrow> box" where
  "refine_step diffMap w y x b =
     (if f32_gt diffMap (y * int w + x) 20
      then \<lparr> box_minX = min (box_minX b) x, box_maxX = max (box_maxX b) x,
             box_minY = min (box_minY b) y, box_maxY = max (box_maxY b) y \<rparr>
      else b)"

definition refineBoundingBox ::
  "real list \<Rightarrow> nat \<Rightarrow> nat \<Rightarrow> int \<Rightarrow> int \<Rightarrow> int \<Rightarrow> int \<Rightarrow> box" where
  "refineBoundingBox diffMap w h minX minY maxX maxY =
     (let padding = 5;
          searchMinX = max 0 (minX - padding);
          searchMaxX = min (int w - 1) (maxX + padding);
          searchMinY = max 0 (minY - padding);
          searchMaxY = min (int h - 1) (maxY + padding)
      in fold (\<lambda>y b. fold (\<lambda>x b. refine_step diffMap w y x b) [searchMinX..searchMaxX] b)
           [searchMinY..searchMaxY]
           \<lparr> box_minX = maxX, box_maxX = minX, box_minY = maxY, box_maxY = minY \<rparr>)"

text \<open>The pixels of the search window of \<open>refineBoundingBox\<close> whose difference exceeds 20.\<close>

definition window_edge_pixel ::
  "real list \<Rightarrow> nat \<Rightarrow> nat \<Rightarrow> int \<Rightarrow> int \<Rightarrow> int \<Rightarrow> int \<Rightarrow> int \<Rightarrow> int \<Rightarrow> bool" where
  "window_edge_pixel diffMap w h minX minY maxX maxY x y \<longleftrightarrow>
     max 0 (minX - 5) \<le> x \<and> x \<le> min (int w - 1) (maxX + 5)
     \<and> max 0 (minY - 5) \<le> y \<and> y \<le> min (int h - 1) (maxY + 5)
     \<and> f32_gt diffMap (y * int w + x) 20"

definition box_contains :: "box \<Rightarrow> box \<Rightarrow> bool" where
  "box_contains outer inner \<longleftrightarrow>
     box_minX outer \<le> box_minX inner \<and> box_maxX inner \<le> box_maxX outer
     \<and> box_minY outer \<le> box_minY inner \<and> box_maxY inner \<le> box_maxY outer"


text \<open>Frames of identical dimensions, each a well-formed \<open>ImageData\<close>.\<close>

definition same_geometry :: "frame list \<Rightarrow> bool" where
  "same_geometry frames \<longleftrightarrow>
     (\<forall>f \<in> set frames. wf_frame f \<and> frame_width f = frame_width (hd frames)
        \<and> frame_height f = frame_height (hd frames))"

text \<open>A value of the running maximum or minimum over a binary mask: 0, 255 or \<open>NaN\<close>.\<close>

definition bin_or_nan :: "nat option \<Rightarrow> bool" where
  "bin_or_nan v \<longleftrightarrow> v = None \<or> v = Some 0 \<or> v = Some 255"


text \<open>A pixel inside a box, edges included.\<close>

definition in_box :: "box \<Rightarrow> int \<Rightarrow> int \<Rightarrow> bool" where
  "in_box b x y \<longleftrightarrow> box_minX b \<le> x \<and> x \<le> box_maxX b \<and> box_minY b \<le> y \<and> y \<le> box_maxY b"

text \<open>
  Where the edges of the box can be while \<open>refineBoundingBox\<close> scans the columns \<open>xs\<close> of the
  rows \<open>ys\<close>: at the start value or at a scanned pixel whose difference exceeds 20.
\<close>

definition edge_inv ::
  "real list \<Rightarrow> nat \<Rightarrow> int list \<Rightarrow> int list \<Rightarrow> box \<Rightarrow> box \<Rightarrow> bool" where
  "edge_inv d w xs ys b0 b \<longleftrightarrow>
     (box_minX b = box_minX b0 \<or> (\<exists>y \<in> set ys. box_minX b \<in> set xs \<and> f32_gt d (y * int w + box_minX b) 20))
   \<and> (box_maxX b = box_maxX b0 \<or> (\<exists>y \<in> set ys. box_maxX b \<in> set xs \<and> f32_gt d (y * int w + box_maxX b) 20))
   \<and> (box_minY b = box_minY b0 \<or> (\<exists>x \<in> set xs. box_minY b \<in> set ys \<and> f32_gt d (box_minY b * int w + x) 20))
   \<and> (box_maxY b = box_maxY b0 \<or> (\<exists>x \<in> set xs. box_maxY b \<in> set ys \<and> f32_gt d (box_maxY b * int w + x) 20))"


section \<open>Area colour sampling\<close>

text \<open>
  A colour \<open>{r, g, b}\<close>; the virtual canvas with the RGBA bytes \<open>getImageData\<close> reads at
  pixel (x, y); a screen record as the server lists it (position and area are \<open>null\<close> until a
  scan reports them).
\<close>

record color =
  color_r :: int
  color_g :: int
  color_b :: int

record canvas =
  canvas_width :: nat
  canvas_height :: nat
  canvas_rgba :: "nat \<Rightarrow> nat \<Rightarrow> nat \<Rightarrow> nat"

record screen =
  screen_socketId :: string
  screen_name :: string
  screen_position :: "point option"
  screen_area :: "rect option"

text \<open>
  \<open>CanvasRenderingContext2D.getImageData(sx, sy, sw, sh)\<close>: the bytes of the rectangle
  in row-major order, byte \<open>4 * (j * sw + i) + c\<close> being channel \<open>c\<close> of the canvas pixel
  \<open>(sx + i, sy + j)\<close>; pixels outside the canvas read as transparent black. The callers
  pass \<open>sw, sh \<ge> 1\<close>.
\<close>

definition getImageData :: "canvas \<Rightarrow> int \<Rightarrow> int \<Rightarrow> nat \<Rightarrow> nat \<Rightarrow> frame" where
  "getImageData cv sx sy sw sh =
     \<lparr> frame_width = sw, frame_height = sh,
       frame_data =
         map (\<lambda>k. let p = k div 4; px = sx + int (p mod sw); py = sy + int (p div sw) in
                   if 0 \<le> px \<and> px < int (canvas_width cv) \<and> 0 \<le> py \<and> py < int (canvas_height cv)
                   then canvas_rgba cv (nat px) (nat py) (k mod 4) else 0)
             [0..<4 * sw * sh] \<rparr>"

definition sample_step ::
  "nat list \<Rightarrow> nat \<Rightarrow> nat \<Rightarrow> nat \<Rightarrow> nat \<Rightarrow> real \<times> real \<times> real \<times> real
     \<Rightarrow> real \<times> real \<times> real \<times> real" where
  "sample_step data areaW areaH y x acc =
     (case acc of (totalR, totalG, totalB, totalWeight) \<Rightarrow>
        (let i = (y * areaW + x) * 4;
             centerX = real areaW / 2;
             centerY = real areaH / 2;
             dx = (real x - centerX) / (real areaW / 2);
             dy = (real y - centerY) / (real areaH / 2);
             dist = sqrt (dx * dx + dy * dy);
             weight = exp (- dist * dist)
         in (totalR + real (data ! i) * weight,
             totalG + real (data ! (i + 1)) * weight,
             totalB + real (data ! (i + 2)) * weight,
             totalWeight + weight)))"

text \<open>
  The rectangle that \<open>sampleAreaColor\<close> reads. \<open>Math.floor\<close> is taken of the product as
  the code computes it, a double: \<open>0.29 * 200\<close> is 57.99999999999999 and its floor 57.
  The weights and the running sums of the samples stay exact reals: their rounding is far
  below the half unit on which \<open>Math.round\<close> of the quotient decides.
\<close>

definition sampling_rect :: "config \<Rightarrow> rect \<Rightarrow> int \<times> int \<times> nat \<times> nat" where
  "sampling_rect cfg area =
     (let normalized = clampRect cfg area;
          areaX = \<lfloor>to_double (rect_x normalized * real (canvasSize cfg))\<rfloor>;
          areaY = \<lfloor>to_double (rect_y normalized * real (canvasSize cfg))\<rfloor>;
          areaW = nat (max 1 \<lfloor>to_double (rect_width normalized * real (canvasSize cfg))\<rfloor>);
          areaH = nat (max 1 \<lfloor>to_double (rect_height normalized * real (canvasSize cfg))\<rfloor>)
      in (areaX, areaY, areaW, areaH))"

definition sampleAreaColor :: "config \<Rightarrow> canvas \<Rightarrow> screen \<Rightarrow> js_error + color" where
  "sampleAreaColor cfg cv scr =
     (case screen_area scr of
        Some area \<Rightarrow>
          (case sampling_rect cfg area of (areaX, areaY, areaW, areaH) \<Rightarrow>
             (let data = frame_data (getImageData cv areaX areaY areaW areaH)
              in case fold (\<lambda>y acc. fold (sample_step data areaW areaH y) [0..<areaW] acc)
                        [0..<areaH] (0, 0, 0, 0)
                 of (totalR, totalG, totalB, totalWeight) \<Rightarrow>
                   Inr \<lparr> color_r = Math_round (totalR / totalWeight),
                         color_g = Math_round (totalG / totalWeight),
                         color_b = Math_round (totalB / totalWeight) \<rparr>))
      | None \<Rightarrow>
          (case screen_position scr of
             None \<Rightarrow> Inl TypeError
           | Some pos \<Rightarrow>
               (let pixelX = \<lfloor>to_double (point_x pos * real (canvasSize cfg))\<rfloor>;
                    pixelY = \<lfloor>to_double (point_y pos * real (canvasSize cfg))\<rfloor>;
                    pixel = frame_data (getImageData cv pixelX pixelY 1 1)
                in Inr \<lparr> color_r = int (pixel ! 0), color_g = int (pixel ! 1),
                         color_b = int (pixel ! 2) \<rparr>)))"

text \<open>The sampling rectangle lies inside the canvas.\<close>

definition rect_in_canvas :: "canvas \<Rightarrow> int \<times> int \<times> nat \<times> nat \<Rightarrow> bool" where
  "rect_in_canvas cv r =
     (case r of (areaX, areaY, areaW, areaH) \<Rightarrow>
        0 \<le> areaX \<and> areaX + int areaW \<le> int (canvas_width cv)
        \<and> 0 \<le> areaY \<and> areaY + int areaH \<le> int (canvas_height cv))"

text \<open>Every canvas pixel of the rectangle has the red, green and blue values given.\<close>

definition uniform_rect :: "canvas \<Rightarrow> int \<times> int \<times> nat \<times> nat \<Rightarrow> nat \<Rightarrow> nat \<Rightarrow> nat \<Rightarrow> bool" where
  "uniform_rect cv r cr cg cb =
     (case r of (areaX, areaY, areaW, areaH) \<Rightarrow>
        \<forall>x y. areaX \<le> int x \<and> int x < areaX + int areaW \<and> int x < int (canvas_width cv)
              \<and> areaY \<le> int y \<and> int y < areaY + int areaH \<and> int y < int (canvas_height cv)
          \<longrightarrow> canvas_rgba cv x y 0 = cr \<and> canvas_rgba cv x y 1 = cg \<and> canvas_rgba cv x y 2 = cb)"

text \<open>
  Test data: a canvas of the configured size that is red all over, a screen whose area
  \<open>{x: 0.99, y: 0.5, width: 0.02, height: 0.02}\<close> touches the right edge of the unit
  square, and a screen with the area \<open>{x: 0.29, y: 0.5, width: 0.02, height: 0.02}\<close>.
\<close>

definition red_canvas :: canvas where
  "red_canvas = \<lparr> canvas_width = 200, canvas_height = 200,
     canvas_rgba = (\<lambda>x y c. if c = 0 \<or> c = 3 then 255 else 0) \<rparr>"

definition edge_area :: rect where
  "edge_area = \<lparr> rect_x = to_double (99 / 100), rect_y = to_double (1 / 2),
     rect_width = to_double (2 / 100), rect_height = to_double (2 / 100) \<rparr>"

definition inner_area :: rect where
  "inner_area = \<lparr> rect_x = to_double (29 / 100), rect_y = to_double (1 / 2),
     rect_width = to_double (2 / 100), rect_height = to_double (2 / 100) \<rparr>"

definition edge_screen :: screen where
  "edge_screen = \<lparr> screen_socketId = ''s1'', screen_name = ''Screen 1'',
     screen_position = Some \<lparr> point_x = 1, point_y = to_double (1 / 2) \<rparr>,
     screen_area = Some edge_area \<rparr>"

definition inner_screen :: screen where
  "inner_screen = \<lparr> screen_socketId = ''s2'', screen_name = ''Screen 2'',
     screen_position = Some \<lparr> point_x = to_double (3 / 10), point_y = to_double (1 / 2) \<rparr>,
     screen_area = Some inner_area \<rparr>"

text \<open>The running sums of \<open>sampleAreaColor\<close> over samples of one colour.\<close>

definition const_acc :: "real \<Rightarrow> real \<Rightarrow> real \<Rightarrow> real \<times> real \<times> real \<times> real \<Rightarrow> bool" where
  "const_acc cr cg cb acc =
     (case acc of (tR, tG, tB, tW) \<Rightarrow> tR = cr * tW \<and> tG = cg * tW \<and> tB = cb * tW \<and> 0 \<le> tW)"

definition const_acc_pos :: "real \<Rightarrow> real \<Rightarrow> real \<Rightarrow> real \<times> real \<times> real \<times> real \<Rightarrow> bool" where
  "const_acc_pos cr cg cb acc =
     (case acc of (tR, tG, tB, tW) \<Rightarrow> tR = cr * tW \<and> tG = cg * tW \<and> tB = cb * tW \<and> 0 < tW)"


section \<open>Difference map and blur\<close>

text \<open>
  Steps 1 and 2 of \<open>detectScreenArea\<close>. The difference map and the blurred map are
  \<open>Float32Array\<close>s of \<open>width * height\<close> entries, modelled as lists of reals (no rounding,
  no \<open>NaN\<close>): the reads below are in range whenever both frames hold
  \<open>4 * width * height\<close> bytes and the map has \<open>width * height\<close> entries, which is how
  \<open>detectScreenArea\<close> calls them on frames of one size.
\<close>

definition luminance :: "nat list \<Rightarrow> nat \<Rightarrow> real" where
  "luminance d i = real (d ! i) * 0.299 + real (d ! (i + 1)) * 0.587 + real (d ! (i + 2)) * 0.114"

definition difference_map :: "frame \<Rightarrow> frame \<Rightarrow> real list" where
  "difference_map baseFrame activeFrame =
     (let width = frame_width baseFrame; height = frame_height baseFrame;
          baseData = frame_data baseFrame; activeData = frame_data activeFrame
      in fill2d width height
           (\<lambda>x y. let i = (y * width + x) * 4;
                       baseLum = luminance baseData i;
                       activeLum = luminance activeData i
                   in max 0 (activeLum - baseLum))
           (replicate (width * height) 0))"

definition createGaussianKernel :: "nat \<Rightarrow> real list" where
  "createGaussianKernel radius =
     (let sigma = real radius / 2;
          kern = map (\<lambda>i. exp (- (real_of_int (i * i)) / (2 * sigma * sigma)))
                     [- int radius..int radius];
          s = sum_list kern
      in map (\<lambda>v. v / s) kern)"

definition blur_at :: "real list \<Rightarrow> nat \<Rightarrow> (int \<Rightarrow> real) \<Rightarrow> real" where
  "blur_at kern radius sample =
     (case fold (\<lambda>k (s, weightSum).
                   let weight = kern ! nat (k + int radius)
                   in (s + sample k * weight, weightSum + weight))
             [- int radius..int radius] (0, 0)
      of (s, weightSum) \<Rightarrow> s / weightSum)"

definition gaussianBlur :: "real list \<Rightarrow> nat \<Rightarrow> nat \<Rightarrow> nat \<Rightarrow> real list" where
  "gaussianBlur data w h radius =
     (let kern = createGaussianKernel radius;
          temp = fill2d w h
                   (\<lambda>x y. blur_at kern radius
                      (\<lambda>k. data ! (y * w + nat (clampi (int x + k) 0 (int w - 1)))))
                   (replicate (length data) 0)
      in fill2d w h
           (\<lambda>x y. blur_at kern radius
              (\<lambda>k. temp ! (nat (clampi (int y + k) 0 (int h - 1)) * w + x)))
           (replicate (length data) 0))"

section \<open>Connected components\<close>

text \<open>
  A blob pixel \<open>{x, y}\<close> is a pair of integers. \<open>mask[idx] === 255\<close> is false for a read
  out of range, \<open>!visited[idx]\<close> is true for one, and a write out of range is ignored.
  The loop of \<open>floodFill\<close> runs while the queue is not empty; it is a partial function,
  \<open>None\<close> standing for a run that never ends. \<open>floodFill\<close> returns the pixels together
  with the \<open>visited\<close> array it has updated in place.
\<close>

type_synonym pixel = "int \<times> int"

record blob =
  blob_pixels :: "pixel list"

definition mask_lit :: "nat list \<Rightarrow> nat \<Rightarrow> bool" where
  "mask_lit msk idx \<longleftrightarrow> idx < length msk \<and> msk ! idx = 255"

definition not_visited :: "nat list \<Rightarrow> nat \<Rightarrow> bool" where
  "not_visited visited idx \<longleftrightarrow> \<not> (idx < length visited \<and> visited ! idx \<noteq> 0)"

definition directions :: "(int \<times> int) list" where
  "directions = [(- 1, 0), (1, 0), (0, - 1), (0, 1)]"

definition ff_visit ::
  "nat list \<Rightarrow> nat \<Rightarrow> nat \<Rightarrow> pixel \<Rightarrow> int \<times> int \<Rightarrow> nat list \<times> pixel list \<Rightarrow> nat list \<times> pixel list" where
  "ff_visit msk w h p d st =
     (case st of (visited, queue) \<Rightarrow>
        (let nx = fst p + fst d; ny = snd p + snd d in
         if nx \<ge> 0 \<and> nx < int w \<and> ny \<ge> 0 \<and> ny < int h then
           (let idx = nat (ny * int w + nx) in
            if mask_lit msk idx \<and> not_visited visited idx
            then (visited[idx := 1], queue @ [(nx, ny)])
            else (visited, queue))
         else (visited, queue)))"

definition ff_step ::
  "nat list \<Rightarrow> nat \<Rightarrow> nat \<Rightarrow> pixel list \<times> pixel list \<times> nat list \<Rightarrow> pixel list \<times> pixel list \<times> nat list" where
  "ff_step msk w h st =
     (case st of (queue, pixels, visited) \<Rightarrow>
        (case queue of
           [] \<Rightarrow> st
         | p # rest \<Rightarrow>
             (case fold (ff_visit msk w h p) directions (visited, rest) of
                (visited', queue') \<Rightarrow> (queue', pixels @ [p], visited'))))"

partial_function (option) floodFill_loop ::
  "nat list \<Rightarrow> nat \<Rightarrow> nat \<Rightarrow> pixel list \<times> pixel list \<times> nat list
     \<Rightarrow> (pixel list \<times> pixel list \<times> nat list) option" where
  "floodFill_loop msk w h st =
     (if fst st = [] then Some st else floodFill_loop msk w h (ff_step msk w h st))"

declare floodFill_loop.simps [code]

definition floodFill ::
  "nat list \<Rightarrow> nat list \<Rightarrow> nat \<Rightarrow> nat \<Rightarrow> int \<Rightarrow> int \<Rightarrow> (pixel list \<times> nat list) option" where
  "floodFill msk visited w h startX startY =
     map_option (\<lambda>st. (fst (snd st), snd (snd st)))
       (floodFill_loop msk w h
          ([(startX, startY)], [], visited[nat (startY * int w + startX) := 1]))"

definition fb_visit ::
  "nat list \<Rightarrow> nat \<Rightarrow> nat \<Rightarrow> nat \<Rightarrow> nat \<Rightarrow> (nat list \<times> blob option \<times> nat) option
     \<Rightarrow> (nat list \<times> blob option \<times> nat) option" where
  "fb_visit msk w h y x st =
     (case st of
        None \<Rightarrow> None
      | Some (visited, largestBlob, largestSize) \<Rightarrow>
          (let idx = y * w + x in
           if mask_lit msk idx \<and> not_visited visited idx then
             (case floodFill msk visited w h (int x) (int y) of
                None \<Rightarrow> None
              | Some (pixels, visited') \<Rightarrow>
                  if length pixels > largestSize
                  then Some (visited', Some \<lparr> blob_pixels = pixels \<rparr>, length pixels)
                  else Some (visited', largestBlob, largestSize))
           else st))"

definition findLargestBlob :: "nat list \<Rightarrow> nat \<Rightarrow> nat \<Rightarrow> blob option option" where
  "findLargestBlob msk w h =
     map_option (\<lambda>st. fst (snd st))
       (fold (\<lambda>y st. fold (fb_visit msk w h y) [0..<w] st) [0..<h]
          (Some (replicate (w * h) 0, None, 0)))"


section \<open>Detection\<close>

text \<open>
  \<open>detectScreenArea\<close>, cut at its own comments: steps 1 and 2 (\<open>blurred_difference\<close>),
  steps 3 to 5 (\<open>processed_mask\<close>), step 6 (\<open>findLargestBlob\<close> and the size test),
  steps 7 and 8 and the result (\<open>detection_from_blob\<close>). The outer \<open>option\<close> of the
  result is \<open>None\<close> when the flood fill does not return, the inner one is the \<open>null\<close> of
  the source.
\<close>

record detection =
  det_center :: point
  det_area :: rect
  det_pixelCount :: nat

definition blurred_difference :: "config \<Rightarrow> frame \<Rightarrow> frame \<Rightarrow> real list" where
  "blurred_difference cfg baseFrame activeFrame =
     gaussianBlur (difference_map baseFrame activeFrame)
       (frame_width baseFrame) (frame_height baseFrame) (gaussianBlurRadius cfg)"

definition processed_mask :: "config \<Rightarrow> frame \<Rightarrow> frame \<Rightarrow> nat list" where
  "processed_mask cfg baseFrame activeFrame =
     (let width = frame_width baseFrame; height = frame_height baseFrame;
          blurredDiff = blurred_difference cfg baseFrame activeFrame;
          threshold = calculateAdaptiveThreshold cfg blurredDiff width height;
          binaryMask = map (\<lambda>v. if v > threshold then 255 else 0) blurredDiff
      in erode (dilate binaryMask width height (morphologyKernel cfg))
           width height (morphologyKernel cfg))"

definition blob_step ::
  "real list \<Rightarrow> nat \<Rightarrow> pixel \<Rightarrow> int \<times> int \<times> int \<times> int \<times> real \<times> real \<times> real
     \<Rightarrow> int \<times> int \<times> int \<times> int \<times> real \<times> real \<times> real" where
  "blob_step blurredDiff w p acc =
     (case acc of (minX, maxX, minY, maxY, totalX, totalY, totalWeight) \<Rightarrow>
        (let x = fst p; y = snd p;
             weight = blurredDiff ! nat (y * int w + x)
         in (min minX x, max maxX x, min minY y, max maxY y,
             totalX + real_of_int x * weight, totalY + real_of_int y * weight,
             totalWeight + weight)))"

definition detection_from_blob ::
  "config \<Rightarrow> real list \<Rightarrow> nat \<Rightarrow> nat \<Rightarrow> blob \<Rightarrow> detection" where
  "detection_from_blob cfg blurredDiff width height blb =
     (case fold (blob_step blurredDiff width) (blob_pixels blb)
             (int width, 0, int height, 0, 0, 0, 0)
      of (minX, maxX, minY, maxY, totalX, totalY, totalWeight) \<Rightarrow>
        (let refinedBox = refineBoundingBox blurredDiff width height minX minY maxX maxY;
             centerX = (if totalWeight > 0 then totalX / totalWeight
                        else real_of_int (minX + maxX) / 2);
             centerY = (if totalWeight > 0 then totalY / totalWeight
                        else real_of_int (minY + maxY) / 2);
             normalizedArea = clampRect cfg (normalizeRectToSquare
               \<lparr> rect_x = real_of_int (box_minX refinedBox),
                 rect_y = real_of_int (box_minY refinedBox),
                 rect_width = real_of_int (box_maxX refinedBox - box_minX refinedBox),
                 rect_height = real_of_int (box_maxY refinedBox - box_minY refinedBox) \<rparr>
               width height);
             normalizedCenter = normalizePointToSquare centerX centerY width height
         in \<lparr> det_center = \<lparr> point_x = point_x normalizedCenter,
                              point_y = point_y normalizedCenter \<rparr>,
              det_area = \<lparr> rect_x = rect_x normalizedArea, rect_y = rect_y normalizedArea,
                            rect_width = rect_width normalizedArea,
                            rect_height = rect_height normalizedArea \<rparr>,
              det_pixelCount = length (blob_pixels blb) \<rparr>))"

definition detectScreenArea :: "config \<Rightarrow> frame \<Rightarrow> frame \<Rightarrow> detection option option" where
  "detectScreenArea cfg baseFrame activeFrame =
     (let width = frame_width baseFrame; height = frame_height baseFrame;
          blurredDiff = blurred_difference cfg baseFrame activeFrame;
          processedMask = processed_mask cfg baseFrame activeFrame
      in case findLargestBlob processedMask width height of
           None \<Rightarrow> None
         | Some None \<Rightarrow> Some None
         | Some (Some blb) \<Rightarrow>
             if length (blob_pixels blb) < minBlobSize cfg then Some None
             else Some (Some (detection_from_blob cfg blurredDiff width height blb)))"

section \<open>Scan orchestration\<close>

text \<open>
  \<open>startScan\<close> with everything it does made explicit: the globals and the properties of
  the page it writes are the fields of \<open>controller\<close>; what it sends, logs, captures and
  waits for is the list of events it returns, in order. The messages of the console and of
  the progress text are constructors instead of formatted strings. No socket event arrives
  during the scan (the list of screens stays as it is).
\<close>

datatype socket_msg =
    ClearPositions
  | BroadcastColor color
  | SendColor string color
  | ReportPosition string real real rect

datatype console_msg =
    ScanStarting
  | BaseFrameCaptured
  | ScreenDetected string detection
  | ScreenNotDetected string
  | ScanComplete

datatype progress_msg =
    NoProgress
  | CapturingReference
  | ScanningScreen string nat nat

datatype event =
    Emit socket_msg
  | ConsoleLog console_msg
  | ConsoleWarn console_msg
  | Sleep nat
  | CaptureFrame nat

record controller =
  webcamStream :: bool
  screens :: "screen list"
  isScanning :: bool
  isAnimating :: bool
  audioBeatEnabled :: bool
  captures :: nat
  scanBtn_disabled :: bool
  playBtn_disabled :: bool
  stopBtn_disabled :: bool
  scanProgress_active :: bool
  progressFill_width :: real
  progressText :: progress_msg

definition updateControls :: "controller \<Rightarrow> controller" where
  "updateControls st =
     (let hasWebcam = webcamStream st;
          hasScreens = length (screens st) > 0;
          hasDetectedScreens = (\<exists>s \<in> set (screens st). screen_position s \<noteq> None);
          st1 = st \<lparr> scanBtn_disabled := \<not> hasWebcam \<or> \<not> hasScreens \<or> isScanning st \<rparr>
      in if audioBeatEnabled st1
         then st1 \<lparr> playBtn_disabled := True, stopBtn_disabled := True \<rparr>
         else st1 \<lparr> playBtn_disabled := \<not> hasDetectedScreens \<or> isAnimating st1,
                    stopBtn_disabled := \<not> isAnimating st1 \<rparr>)"

text \<open>
  \<open>captureFrame\<close> n times, each followed by \<open>await sleep(ms)\<close>: the frames come from the
  camera feed, indexed by the number of captures so far.
\<close>

fun capture_frames ::
  "(nat \<Rightarrow> frame) \<Rightarrow> nat \<Rightarrow> nat \<Rightarrow> controller \<times> event list \<Rightarrow> frame list
     \<Rightarrow> (controller \<times> event list) \<times> frame list" where
  "capture_frames camera ms 0 (st, evs) frames = ((st, evs), frames)"
| "capture_frames camera ms (Suc n) (st, evs) frames =
     capture_frames camera ms n
       (st \<lparr> captures := Suc (captures st) \<rparr>, evs @ [CaptureFrame (captures st), Sleep ms])
       (frames @ [camera (captures st)])"

definition black :: color where "black = \<lparr> color_r = 0, color_g = 0, color_b = 0 \<rparr>"
definition white :: color where "white = \<lparr> color_r = 255, color_g = 255, color_b = 255 \<rparr>"

definition scan_screen ::
  "config \<Rightarrow> (nat \<Rightarrow> frame) \<Rightarrow> frame \<Rightarrow> nat \<Rightarrow> nat \<Rightarrow> screen \<Rightarrow> controller \<times> event list
     \<Rightarrow> (js_error + controller \<times> event list) option" where
  "scan_screen cfg camera baseFrame n i scr s =
     (case s of (st, evs) \<Rightarrow>
        (let st1 = st \<lparr> progressFill_width := (real (i + 1) / real n) * 100,
                        progressText := ScanningScreen (screen_name scr) (i + 1) n \<rparr>;
             evs1 = evs @ [Emit (SendColor (screen_socketId scr) white),
                           Sleep (scanFlashDuration cfg)]
         in case capture_frames camera 30 3 (st1, evs1) [] of
              ((st2, evs2), activeFrames) \<Rightarrow>
                (case averageFrames activeFrames of
                   Inl e \<Rightarrow> Some (Inl e)
                 | Inr activeFrame \<Rightarrow>
                     (case detectScreenArea cfg baseFrame activeFrame of
                        None \<Rightarrow> None
                      | Some det \<Rightarrow>
                          (let evs3 =
                             (case det of
                                Some d \<Rightarrow>
                                  evs2 @ [ConsoleLog (ScreenDetected (screen_name scr) d),
                                          Emit (ReportPosition (screen_socketId scr)
                                                  (point_x (det_center d))
                                                  (point_y (det_center d)) (det_area d))]
                              | None \<Rightarrow>
                                  evs2 @ [ConsoleWarn (ScreenNotDetected (screen_name scr))])
                           in Some (Inr (st2,
                                evs3 @ [Emit (SendColor (screen_socketId scr) black),
                                        Sleep (scanCooldown cfg)])))))))"

fun scan_screens ::
  "config \<Rightarrow> (nat \<Rightarrow> frame) \<Rightarrow> frame \<Rightarrow> nat \<Rightarrow> nat \<Rightarrow> screen list \<Rightarrow> controller \<times> event list
     \<Rightarrow> (js_error + controller \<times> event list) option" where
  "scan_screens cfg camera baseFrame n i [] s = Some (Inr s)"
| "scan_screens cfg camera baseFrame n i (scr # rest) s =
     (case scan_screen cfg camera baseFrame n i scr s of
        None \<Rightarrow> None
      | Some (Inl e) \<Rightarrow> Some (Inl e)
      | Some (Inr s') \<Rightarrow> scan_screens cfg camera baseFrame n (Suc i) rest s')"

definition startScan ::
  "config \<Rightarrow> (nat \<Rightarrow> frame) \<Rightarrow> controller \<Rightarrow> (js_error + controller \<times> event list) option" where
  "startScan cfg camera st =
     (if \<not> webcamStream st \<or> length (screens st) = 0 then Some (Inr (st, []))
      else
        (let st1 = st \<lparr> isScanning := True, scanBtn_disabled := True, playBtn_disabled := True,
                        scanProgress_active := True, progressFill_width := 0 \<rparr>;
             evs1 = [Emit ClearPositions, ConsoleLog ScanStarting,
                     Emit (BroadcastColor black), Sleep 600];
             st2 = st1 \<lparr> progressText := CapturingReference \<rparr>
         in case capture_frames camera 50 3 (st2, evs1) [] of
              ((st3, evs3), baseFrames) \<Rightarrow>
                (case averageFrames baseFrames of
                   Inl e \<Rightarrow> Some (Inl e)
                 | Inr baseFrame \<Rightarrow>
                     (case scan_screens cfg camera baseFrame (length (screens st3)) 0
                             (screens st3) (st3, evs3 @ [ConsoleLog BaseFrameCaptured]) of
                        None \<Rightarrow> None
                      | Some (Inl e) \<Rightarrow> Some (Inl e)
                      | Some (Inr (st4, evs4)) \<Rightarrow>
                          Some (Inr (updateControls
                                  (st4 \<lparr> isScanning := False, scanProgress_active := False \<rparr>),
                                evs4 @ [ConsoleLog ScanComplete]))))))"

text \<open>An event that tells the user or the log that something is wrong.\<close>

fun is_report :: "event \<Rightarrow> bool" where
  "is_report (ConsoleLog m) = True"
| "is_report (ConsoleWarn m) = True"
| "is_report e = False"

definition idle_controller :: controller where
  "idle_controller = \<lparr> webcamStream = True, screens = [], isScanning = False,
     isAnimating = False, audioBeatEnabled = False, captures = 0,
     scanBtn_disabled = True, playBtn_disabled = True, stopBtn_disabled = True,
     scanProgress_active = False, progressFill_width = 0, progressText = NoProgress \<rparr>"

definition still_camera :: "nat \<Rightarrow> frame" where
  "still_camera n = \<lparr> frame_width = 1, frame_height = 1, frame_data = [0, 0, 0, 255] \<rparr>"


section \<open>Connected components: what is claimed\<close>

text \<open>
  What the claims about blobs speak of: the index of a pixel in a row-major array, the
  pixels of the image, the lit pixels (inside the image, mask value 255), 4-adjacency, and
  the connected component of a pixel, reached through lit pixels only.
\<close>

definition px_index :: "nat \<Rightarrow> pixel \<Rightarrow> nat" where
  "px_index w p = nat (snd p * int w + fst p)"

definition in_image :: "nat \<Rightarrow> nat \<Rightarrow> pixel \<Rightarrow> bool" where
  "in_image w h p \<longleftrightarrow> 0 \<le> fst p \<and> fst p < int w \<and> 0 \<le> snd p \<and> snd p < int h"

definition lit :: "nat list \<Rightarrow> nat \<Rightarrow> nat \<Rightarrow> pixel \<Rightarrow> bool" where
  "lit msk w h p \<longleftrightarrow> in_image w h p \<and> mask_lit msk (px_index w p)"

definition adjacent4 :: "pixel \<Rightarrow> pixel \<Rightarrow> bool" where
  "adjacent4 p q \<longleftrightarrow> (\<exists>d \<in> set directions. q = (fst p + fst d, snd p + snd d))"

definition lit_edges :: "nat list \<Rightarrow> nat \<Rightarrow> nat \<Rightarrow> (pixel \<times> pixel) set" where
  "lit_edges msk w h = {(p, q). lit msk w h p \<and> lit msk w h q \<and> adjacent4 p q}"

definition component :: "nat list \<Rightarrow> nat \<Rightarrow> nat \<Rightarrow> pixel \<Rightarrow> pixel set" where
  "component msk w h p = {q. (p, q) \<in> (lit_edges msk w h)\<^sup>*}"

text \<open>A pixel of the image whose entry in the \<open>visited\<close> array is set.\<close>

definition vis :: "nat list \<Rightarrow> nat \<Rightarrow> nat \<Rightarrow> pixel \<Rightarrow> bool" where
  "vis visited w h p \<longleftrightarrow> in_image w h p \<and> \<not> not_visited visited (px_index w p)"

text \<open>
  The invariant of the loop of \<open>floodFill\<close>, started at a lit pixel \<open>s\<close> with the array
  \<open>V0\<close>: between two iterations (\<open>ff_inv\<close>) and inside one, after the directions \<open>ds\<close>
  of the pixel \<open>p\<close> taken from the queue (\<open>ff_mid\<close>). The pixels collected and queued
  are distinct, lit, in the component of \<open>s\<close> and new; the array marks them and what
  \<open>V0\<close> marked; every lit neighbour of a collected pixel is marked.
\<close>

definition step_to :: "pixel \<Rightarrow> int \<times> int \<Rightarrow> pixel" where
  "step_to p d = (fst p + fst d, snd p + snd d)"

definition ff_mid ::
  "nat list \<Rightarrow> nat \<Rightarrow> nat \<Rightarrow> pixel \<Rightarrow> nat list \<Rightarrow> pixel list \<Rightarrow> pixel \<Rightarrow> (int \<times> int) list
     \<Rightarrow> nat list \<times> pixel list \<Rightarrow> bool" where
  "ff_mid msk w h s V0 pixels p ds st =
     (case st of (visited, queue) \<Rightarrow>
        length visited = w * h
      \<and> distinct (pixels @ p # queue)
      \<and> (\<forall>q \<in> set (pixels @ p # queue).
            lit msk w h q \<and> q \<in> component msk w h s \<and> \<not> vis V0 w h q)
      \<and> (\<forall>q. vis visited w h q \<longleftrightarrow> vis V0 w h q \<or> q \<in> set (pixels @ p # queue))
      \<and> s \<in> set (pixels @ p # queue)
      \<and> (\<forall>p' \<in> set pixels. \<forall>q. lit msk w h q \<and> adjacent4 p' q \<longrightarrow> vis visited w h q)
      \<and> (\<forall>d \<in> set ds. lit msk w h (step_to p d) \<longrightarrow> vis visited w h (step_to p d)))"

definition ff_inv ::
  "nat list \<Rightarrow> nat \<Rightarrow> nat \<Rightarrow> pixel \<Rightarrow> nat list \<Rightarrow> pixel list \<times> pixel list \<times> nat list \<Rightarrow> bool" where
  "ff_inv msk w h s V0 st =
     (case st of (queue, pixels, visited) \<Rightarrow>
        length visited = w * h
      \<and> distinct (pixels @ queue)
      \<and> (\<forall>q \<in> set (pixels @ queue).
            lit msk w h q \<and> q \<in> component msk w h s \<and> \<not> vis V0 w h q)
      \<and> (\<forall>q. vis visited w h q \<longleftrightarrow> vis V0 w h q \<or> q \<in> set (pixels @ queue))
      \<and> s \<in> set (pixels @ queue)
      \<and> (\<forall>p' \<in> set pixels. \<forall>q. lit msk w h q \<and> adjacent4 p' q \<longrightarrow> vis visited w h q))"

text \<open>The measure that ends the loop: unmarked entries count twice, queued pixels once.\<close>

definition zeros :: "nat list \<Rightarrow> nat" where
  "zeros v = length (filter (\<lambda>a. a = 0) v)"

definition ff_measure :: "pixel list \<times> pixel list \<times> nat list \<Rightarrow> nat" where
  "ff_measure st = (case st of (queue, pixels, visited) \<Rightarrow> 2 * zeros visited + length queue)"

text \<open>
  The invariant of the scan of \<open>findLargestBlob\<close> after the first \<open>k\<close> pixels in row-major
  order: the marked pixels are whole components of lit pixels, every lit pixel among the
  first \<open>k\<close> is marked, no marked component is larger than \<open>largestSize\<close>, and
  \<open>largestBlob\<close> is a component of that size.
\<close>

definition blob_ok :: "nat list \<Rightarrow> nat \<Rightarrow> nat \<Rightarrow> nat list \<Rightarrow> blob option \<Rightarrow> nat \<Rightarrow> bool" where
  "blob_ok msk w h visited largestBlob largestSize =
     (case largestBlob of
        None \<Rightarrow> largestSize = 0 \<and> (\<forall>p. \<not> vis visited w h p)
      | Some b \<Rightarrow> largestSize = length (blob_pixels b) \<and> distinct (blob_pixels b)
                 \<and> (\<exists>s. lit msk w h s \<and> set (blob_pixels b) = component msk w h s))"

definition fb_inv ::
  "nat list \<Rightarrow> nat \<Rightarrow> nat \<Rightarrow> nat \<Rightarrow> (nat list \<times> blob option \<times> nat) option \<Rightarrow> bool" where
  "fb_inv msk w h k st =
     (\<exists>visited largestBlob largestSize. st = Some (visited, largestBlob, largestSize)
        \<and> length visited = w * h
        \<and> (\<forall>p. vis visited w h p \<longrightarrow>
               lit msk w h p \<and> (\<forall>q \<in> component msk w h p. vis visited w h q))
        \<and> (\<forall>p. lit msk w h p \<and> px_index w p < k \<longrightarrow> vis visited w h p)
        \<and> (\<forall>p. vis visited w h p \<longrightarrow> card (component msk w h p) \<le> largestSize)
        \<and> blob_ok msk w h visited largestBlob largestSize)"

text \<open>
  Test data: a 3 x 3 mask with three lit regions (of 1, 3 and 1 pixels), and a frame of
  one black pixel.
\<close>

definition two_regions :: "nat list" where
  "two_regions = [255, 0, 255,
                  0,   0, 255,
                  255, 0, 255]"

definition black_pixel :: frame where
  "black_pixel = \<lparr> frame_width = 1, frame_height = 1, frame_data = [0, 0, 0, 255] \<rparr>"


section \<open>Images pixel by pixel, normalized space, and a frame with a bright border column\<close>

text \<open>
  An array of \<open>width * height\<close> entries that holds the value \<open>F x y\<close> at pixel (x, y).
\<close>

definition image_is :: "nat \<Rightarrow> nat \<Rightarrow> 'a list \<Rightarrow> (nat \<Rightarrow> nat \<Rightarrow> 'a) \<Rightarrow> bool" where
  "image_is w h img F \<longleftrightarrow>
     length img = w * h \<and> (\<forall>x < w. \<forall>y < h. img ! (y * w + x) = F x y)"

text \<open>
  One axis of a normalized area: the start \<open>x\<close> in [0, 1], the extent \<open>w\<close> between the
  configured minimum and maximum, and the far edge \<open>x + w\<close> at most 1 unless the extent
  was raised to the configured minimum; the far edge stays below 1 plus that minimum.
\<close>

definition unit_coordinate :: "real \<Rightarrow> bool" where
  "unit_coordinate v \<longleftrightarrow> 0 \<le> v \<and> v \<le> 1"

definition clamped_axis :: "config \<Rightarrow> real \<Rightarrow> real \<Rightarrow> bool" where
  "clamped_axis cfg x w \<longleftrightarrow>
     0 \<le> x \<and> x \<le> 1
     \<and> minNormalizedArea cfg \<le> w \<and> w \<le> maxNormalizedArea cfg
     \<and> (x + w \<le> 1 \<or> w = minNormalizedArea cfg)
     \<and> x + w < 1 + minNormalizedArea cfg"

text \<open>
  Test data: two frames of 51 x 30 pixels. The base frame is black. In the active frame
  every row is the same: a dim background (grey level 6) in columns 0 to 41, black in
  columns 42 to 49 and a bright last column (grey level 60), as of a screen that the
  camera sees at its right border. \<open>strip_blurred x\<close> is the blurred difference in
  column \<open>x\<close>.
\<close>

definition strip_level :: "nat \<Rightarrow> nat" where
  "strip_level x = (if x < 42 then 6 else if x < 50 then 0 else 60)"

definition dark_frame :: frame where
  "dark_frame = \<lparr> frame_width = 51, frame_height = 30,
     frame_data = map (\<lambda>i. if i mod 4 = 3 then 255 else 0) [0..<6120] \<rparr>"

definition strip_frame :: frame where
  "strip_frame = \<lparr> frame_width = 51, frame_height = 30,
     frame_data = map (\<lambda>i. if i mod 4 = 3 then 255 else strip_level (i div 4 mod 51))
                    [0..<6120] \<rparr>"

definition strip_blurred :: "nat \<Rightarrow> real" where
  "strip_blurred x =
     blur_at (createGaussianKernel 2) 2 (\<lambda>j. real (strip_level (nat (clampi (int x + j) 0 50))))"


section \<open>Geometry: clamping and the round trip\<close>

text \<open>
  C6. For every input rectangle (negative coordinates, coordinates above 1, degenerate
  sizes included), \<open>clampRect\<close> returns a rectangle whose width and height lie between
  \<open>minNormalizedArea\<close> and \<open>maxNormalizedArea\<close> and whose x and y lie in [0,1], provided
  the configuration has \<open>minNormalizedArea \<le> maxNormalizedArea\<close>.
\<close>

theorem clampRect_bounds:
  assumes "minNormalizedArea cfg \<le> maxNormalizedArea cfg"
  shows "minNormalizedArea cfg \<le> rect_width (clampRect cfg r)
       \<and> rect_width (clampRect cfg r) \<le> maxNormalizedArea cfg
       \<and> minNormalizedArea cfg \<le> rect_height (clampRect cfg r)
       \<and> rect_height (clampRect cfg r) \<le> maxNormalizedArea cfg
       \<and> 0 \<le> rect_x (clampRect cfg r) \<and> rect_x (clampRect cfg r) \<le> 1
       \<and> 0 \<le> rect_y (clampRect cfg r) \<and> rect_y (clampRect cfg r) \<le> 1"
  using assms by (simp add: clampRect_def min_def max_def)

theorem clampRect_bounds_witness:
  "minNormalizedArea CONFIG \<le> maxNormalizedArea CONFIG
   \<and> clampRect CONFIG \<lparr> rect_x = -3, rect_y = 7, rect_width = 0, rect_height = 100 \<rparr>
       = \<lparr> rect_x = 0, rect_y = 1, rect_width = 2 / 100, rect_height = 65 / 100 \<rparr>
   \<and> minNormalizedArea CONFIG
       \<le> rect_width (clampRect CONFIG \<lparr> rect_x = -3, rect_y = 7, rect_width = 0, rect_height = 100 \<rparr>)
   \<and> rect_height (clampRect CONFIG \<lparr> rect_x = -3, rect_y = 7, rect_width = 0, rect_height = 100 \<rparr>)
       \<le> maxNormalizedArea CONFIG"
proof -
  have c: "minNormalizedArea CONFIG \<le> maxNormalizedArea CONFIG"
    by (simp add: CONFIG_def)
  have e: "clampRect CONFIG \<lparr> rect_x = -3, rect_y = 7, rect_width = 0, rect_height = 100 \<rparr>
       = \<lparr> rect_x = 0, rect_y = 1, rect_width = 2 / 100, rect_height = 65 / 100 \<rparr>"
    by (simp add: clampRect_def CONFIG_def)
  from clampRect_bounds [OF c, of "\<lparr> rect_x = -3, rect_y = 7, rect_width = 0, rect_height = 100 \<rparr>"]
  show ?thesis using c e by simp
qed

text \<open>
  C2. For every rectangle R and positive integer width and height,
  \<open>denormalizeRectFromSquare (normalizeRectToSquare R w h) w h = R\<close> in exact arithmetic:
  the second transform undoes the first.
\<close>

theorem denormalize_normalize_roundtrip:
  assumes "0 < w" and "0 < h"
  shows "denormalizeRectFromSquare (normalizeRectToSquare r w h) w h = r"
  using assms by (simp add: denormalizeRectFromSquare_def normalizeRectToSquare_def Let_def)

theorem denormalize_normalize_roundtrip_witness:
  "(0::nat) < 1280 \<and> (0::nat) < 720
   \<and> normalizeRectToSquare \<lparr> rect_x = 320, rect_y = 180, rect_width = 640, rect_height = 360 \<rparr> 1280 720
       = \<lparr> rect_x = 1 / 4, rect_y = 23 / 64, rect_width = 1 / 2, rect_height = 9 / 32 \<rparr>
   \<and> denormalizeRectFromSquare
        (normalizeRectToSquare \<lparr> rect_x = 320, rect_y = 180, rect_width = 640, rect_height = 360 \<rparr> 1280 720)
        1280 720
       = \<lparr> rect_x = 320, rect_y = 180, rect_width = 640, rect_height = 360 \<rparr>"
proof -
  have w: "(0::nat) < 1280" and h: "(0::nat) < 720" by simp_all
  have n: "normalizeRectToSquare \<lparr> rect_x = 320, rect_y = 180, rect_width = 640, rect_height = 360 \<rparr> 1280 720
       = \<lparr> rect_x = 1 / 4, rect_y = 23 / 64, rect_width = 1 / 2, rect_height = 9 / 32 \<rparr>"
    by (simp add: normalizeRectToSquare_def Let_def)
  from denormalize_normalize_roundtrip [OF w h,
      of "\<lparr> rect_x = 320, rect_y = 180, rect_width = 640, rect_height = 360 \<rparr>"]
  show ?thesis using n by simp
qed

section \<open>Adaptive threshold: the statistics\<close>

lemma fold_step_stats:
  "fold step_stats data (s, sq, c) =
     (s + sum_list (above_noise_floor data),
      sq + sum_list (map (\<lambda>v. v * v) (above_noise_floor data)),
      c + length (above_noise_floor data))"
  by (induction data arbitrary: s sq c) (simp_all add: step_stats_def above_noise_floor_def)

lemma sum_sq_dev:
  fixes m :: real
  shows "sum_list (map (\<lambda>v. (v - m)\<^sup>2) xs)
       = sum_list (map (\<lambda>v. v * v) xs) - 2 * m * sum_list xs + real (length xs) * m\<^sup>2"
  by (induction xs) (simp_all add: power2_eq_square algebra_simps)

lemma variance_eq:
  assumes "xs \<noteq> []"
  shows "sum_list (map (\<lambda>v. (v - spec_mean xs)\<^sup>2) xs) / real (length xs)
       = sum_list (map (\<lambda>v. v * v) xs) / real (length xs) - spec_mean xs * spec_mean xs"
proof -
  let ?n = "real (length xs)"
  have n: "?n \<noteq> 0" using assms by simp
  have s: "sum_list xs = ?n * spec_mean xs" using n by (simp add: spec_mean_def)
  have "sum_list (map (\<lambda>v. (v - spec_mean xs)\<^sup>2) xs)
      = sum_list (map (\<lambda>v. v * v) xs) - ?n * (spec_mean xs * spec_mean xs)"
    unfolding sum_sq_dev [of "spec_mean xs" xs] s by (simp add: power2_eq_square algebra_simps)
  then show ?thesis using n by (simp add: diff_divide_distrib)
qed

text \<open>
  Without rounding, the sums of \<open>calculateAdaptiveThreshold\<close> give the maximum of the
  configured minimum threshold and mean + 1.5 * stdDev, the mean and the standard deviation
  taken over the entries strictly greater than 5 only; the configured minimum threshold
  itself when no entry exceeds 5.
\<close>

lemma calculateAdaptiveThreshold_exact:
  "calculateAdaptiveThreshold cfg data w h =
     (if above_noise_floor data = [] then brightnessThreshold cfg
      else max (brightnessThreshold cfg)
             (spec_mean (above_noise_floor data) + 1.5 * spec_stdDev (above_noise_floor data)))"
proof (cases "above_noise_floor data = []")
  case True
  then show ?thesis by (simp add: calculateAdaptiveThreshold_def fold_step_stats)
next
  case False
  let ?q = "above_noise_floor data"
  have n: "length ?q \<noteq> 0" using False by simp
  have m: "sum_list ?q / real (length ?q) = spec_mean ?q" by (simp add: spec_mean_def)
  have "calculateAdaptiveThreshold cfg data w h
      = max (brightnessThreshold cfg)
          (spec_mean ?q + sqrt (sum_list (map (\<lambda>v. v * v) ?q) / real (length ?q)
                                 - spec_mean ?q * spec_mean ?q) * 1.5)"
    using n by (simp add: calculateAdaptiveThreshold_def fold_step_stats Let_def m)
  also have "\<dots> = max (brightnessThreshold cfg) (spec_mean ?q + 1.5 * spec_stdDev ?q)"
    by (simp add: spec_stdDev_def variance_eq [OF False])
  finally show ?thesis using False by simp
qed


section \<open>Frame averaging: the mean, rounded\<close>

lemma channel_sum_fold:
  "fold (\<lambda>f acc. case acc of None \<Rightarrow> None
                    | Some s \<Rightarrow> if i < length (frame_data f)
                                then Some (s + real (frame_data f ! i)) else None) frames (Some a)
   = (if \<forall>f \<in> set frames. i < length (frame_data f)
      then Some (a + (\<Sum>f\<leftarrow>frames. real (frame_data f ! i))) else None)"
proof (induction frames arbitrary: a)
  case Nil
  then show ?case by simp
next
  case (Cons f fs)
  have none: "fold (\<lambda>f acc. case acc of None \<Rightarrow> None
                    | Some s \<Rightarrow> if i < length (frame_data f)
                                then Some (s + real (frame_data f ! i)) else None) fs None = None"
    by (induction fs) simp_all
  show ?case using Cons.IH none by (simp add: add.assoc)
qed

lemma channel_sum_in_range:
  assumes "\<forall>f \<in> set frames. i < length (frame_data f)"
  shows "channel_sum frames i = Some (\<Sum>f\<leftarrow>frames. real (frame_data f ! i))"
  using assms by (simp add: channel_sum_def channel_sum_fold)

lemma sum_list_bounds:
  assumes "\<forall>f \<in> set frames. frame_data f ! i \<le> 255"
  shows "(\<Sum>f\<leftarrow>frames. real (frame_data f ! i)) \<le> 255 * real (length frames)"
  using assms by (induction frames) (simp_all add: algebra_simps)

lemma sum_list_nonneg': "0 \<le> (\<Sum>f\<leftarrow>frames. real (frame_data f ! i))"
  by (induction frames) simp_all

lemma mean_bounds:
  assumes "frames \<noteq> []" "\<forall>f \<in> set frames. frame_data f ! i \<le> 255"
  shows "0 \<le> spec_channel_mean frames i" "spec_channel_mean frames i \<le> 255"
proof -
  have n: "0 < real (length frames)" using assms(1) by simp
  show "0 \<le> spec_channel_mean frames i"
    unfolding spec_channel_mean_def using sum_list_nonneg' [of i frames] by simp
  show "spec_channel_mean frames i \<le> 255"
    unfolding spec_channel_mean_def using sum_list_bounds [OF assms(2)] n
    by (simp add: pos_divide_le_eq)
qed

lemma Math_round_range:
  assumes "0 \<le> m" "m \<le> 255"
  shows "0 \<le> Math_round m" "Math_round m \<le> 255"
  using assms unfolding Math_round_def by linarith+

lemma Math_round_nearest: "\<bar>real_of_int (Math_round m) - m\<bar> \<le> 1 / 2"
  unfolding Math_round_def by linarith

lemma Math_round_of_nat: "Math_round (real n) = int n"
  unfolding Math_round_def by linarith

lemma averageFrames_Cons:
  "averageFrames (f0 # fs) =
     (if frame_width f0 = 0 \<or> frame_height f0 = 0 then Inl IndexSizeError
      else Inr \<lparr> frame_width = frame_width f0, frame_height = frame_height f0,
             frame_data = map (\<lambda>i. case channel_sum (f0 # fs) i of None \<Rightarrow> 0
                 | Some s \<Rightarrow> uint8_clamped (Math_round (s / real (length (f0 # fs)))))
               [0..<4 * frame_width f0 * frame_height f0] \<rparr>)"
  by (simp only: averageFrames_def Let_def list.case)

lemma averageFrames_general:
  assumes ne: "frames \<noteq> []" and sg: "same_geometry frames"
  shows "\<exists>r. averageFrames frames = Inr r
           \<and> frame_width r = frame_width (hd frames)
           \<and> frame_height r = frame_height (hd frames)
           \<and> length (frame_data r) = 4 * frame_width (hd frames) * frame_height (hd frames)
           \<and> (\<forall>i < 4 * frame_width (hd frames) * frame_height (hd frames).
                 int (frame_data r ! i) = Math_round (spec_channel_mean frames i)
                 \<and> \<bar>real (frame_data r ! i) - spec_channel_mean frames i\<bar> \<le> 1 / 2
                 \<and> frame_data r ! i \<le> 255)"
proof -
  obtain f0 fs where fr: "frames = f0 # fs" using ne by (cases frames) auto
  let ?w = "frame_width f0" and ?h = "frame_height f0"
  have wf0: "wf_frame f0" using sg fr by (simp add: same_geometry_def)
  then have pos: "?w \<noteq> 0" "?h \<noteq> 0" by (simp_all add: wf_frame_def)
  have len: "\<And>f. f \<in> set frames \<Longrightarrow> length (frame_data f) = 4 * ?w * ?h"
    using sg fr by (auto simp: same_geometry_def wf_frame_def)
  have byte: "\<And>f i. f \<in> set frames \<Longrightarrow> i < 4 * ?w * ?h \<Longrightarrow> frame_data f ! i \<le> 255"
  proof -
    fix f i assume f: "f \<in> set frames" and i: "i < 4 * ?w * ?h"
    then have "frame_data f ! i \<in> set (frame_data f)" using len by simp
    moreover have "wf_frame f" using sg f by (simp add: same_geometry_def)
    ultimately show "frame_data f ! i \<le> 255" by (simp add: wf_frame_def)
  qed
  let ?r = "\<lparr> frame_width = ?w, frame_height = ?h,
              frame_data = map (\<lambda>i. case channel_sum frames i of None \<Rightarrow> 0
                  | Some s \<Rightarrow> uint8_clamped (Math_round (s / real (length frames))))
                [0..<4 * ?w * ?h] \<rparr>"
  have r: "averageFrames frames = Inr ?r"
    using pos unfolding fr averageFrames_Cons by simp
  have px: "int (frame_data ?r ! i) = Math_round (spec_channel_mean frames i)
          \<and> \<bar>real (frame_data ?r ! i) - spec_channel_mean frames i\<bar> \<le> 1 / 2
          \<and> frame_data ?r ! i \<le> 255" if i: "i < 4 * ?w * ?h" for i
  proof -
    have rng: "\<forall>f \<in> set frames. i < length (frame_data f)" using len i by simp
    have b: "\<forall>f \<in> set frames. frame_data f ! i \<le> 255" using byte i by blast
    have cs: "channel_sum frames i = Some (spec_channel_mean frames i * real (length frames))"
      using channel_sum_in_range [OF rng] ne by (simp add: spec_channel_mean_def)
    define d where "d = frame_data ?r ! i"
    have v: "d = uint8_clamped (Math_round (spec_channel_mean frames i))"
      unfolding d_def using i ne by (simp add: cs)
    have lo: "0 \<le> Math_round (spec_channel_mean frames i)"
      and hi: "Math_round (spec_channel_mean frames i) \<le> 255"
      using Math_round_range mean_bounds [OF ne b] by blast+
    have e: "int d = Math_round (spec_channel_mean frames i)"
      using lo hi by (simp add: v uint8_clamped_def)
    have n: "real d = real_of_int (Math_round (spec_channel_mean frames i))"
      using e by (metis of_int_of_nat_eq)
    have "int d = Math_round (spec_channel_mean frames i)
          \<and> \<bar>real d - spec_channel_mean frames i\<bar> \<le> 1 / 2 \<and> d \<le> 255"
      using e hi Math_round_nearest [of "spec_channel_mean frames i"] unfolding n by linarith
    then show ?thesis unfolding d_def .
  qed
  show ?thesis using r px by (intro exI [of _ ?r]) (simp add: fr)
qed

lemma averageFrames_single:
  assumes "wf_frame f"
  shows "averageFrames [f] = Inr f"
proof -
  let ?n = "4 * frame_width f * frame_height f"
  have pos: "frame_width f \<noteq> 0" "frame_height f \<noteq> 0" and len: "length (frame_data f) = ?n"
    and byte: "\<forall>v \<in> set (frame_data f). v \<le> 255"
    using assms by (simp_all add: wf_frame_def)
  have "map (\<lambda>i. case channel_sum [f] i of None \<Rightarrow> 0
                  | Some s \<Rightarrow> uint8_clamped (Math_round (s / real (length [f]))))
          [0..<?n] = frame_data f"
  proof (rule nth_equalityI)
    show "length (map (\<lambda>i. case channel_sum [f] i of None \<Rightarrow> 0
                  | Some s \<Rightarrow> uint8_clamped (Math_round (s / real (length [f])))) [0..<?n])
        = length (frame_data f)" using len by simp
  next
    fix i assume "i < length (map (\<lambda>i. case channel_sum [f] i of None \<Rightarrow> 0
                  | Some s \<Rightarrow> uint8_clamped (Math_round (s / real (length [f])))) [0..<?n])"
    then have i: "i < ?n" by simp
    then have "frame_data f ! i \<in> set (frame_data f)" using len by simp
    then have b: "frame_data f ! i \<le> 255" using byte by blast
    show "map (\<lambda>i. case channel_sum [f] i of None \<Rightarrow> 0
                  | Some s \<Rightarrow> uint8_clamped (Math_round (s / real (length [f])))) [0..<?n] ! i
        = frame_data f ! i"
      using i len b by (simp add: channel_sum_def Math_round_of_nat uint8_clamped_def)
  qed
  then have "averageFrames [f]
      = Inr \<lparr> frame_width = frame_width f, frame_height = frame_height f,
              frame_data = frame_data f \<rparr>"
    using pos unfolding averageFrames_Cons by simp
  then show ?thesis by simp
qed

text \<open>
  C7. For every non-empty list of frames of identical dimensions, \<open>averageFrames\<close> returns
  a frame of those dimensions whose every channel value is the arithmetic mean of that
  channel across the inputs, rounded to the nearest integer (\<open>Math.round\<close>), and at most
  255; and averaging a single frame gives that frame back.
\<close>

theorem averageFrames_mean:
  "(frames \<noteq> [] \<and> same_geometry frames \<longrightarrow>
      (\<exists>r. averageFrames frames = Inr r
           \<and> frame_width r = frame_width (hd frames)
           \<and> frame_height r = frame_height (hd frames)
           \<and> length (frame_data r) = 4 * frame_width (hd frames) * frame_height (hd frames)
           \<and> (\<forall>i < 4 * frame_width (hd frames) * frame_height (hd frames).
                 int (frame_data r ! i) = Math_round (spec_channel_mean frames i)
                 \<and> \<bar>real (frame_data r ! i) - spec_channel_mean frames i\<bar> \<le> 1 / 2
                 \<and> frame_data r ! i \<le> 255)))
   \<and> (wf_frame f \<longrightarrow> averageFrames [f] = Inr f)"
  using averageFrames_general averageFrames_single by blast

theorem averageFrames_mean_witness:
  "[\<lparr> frame_width = 1, frame_height = 1, frame_data = [10, 20, 30, 255] \<rparr>,
    \<lparr> frame_width = 1, frame_height = 1, frame_data = [11, 21, 30, 255] \<rparr>] \<noteq> []
   \<and> same_geometry
        [\<lparr> frame_width = 1, frame_height = 1, frame_data = [10, 20, 30, 255] \<rparr>,
         \<lparr> frame_width = 1, frame_height = 1, frame_data = [11, 21, 30, 255] \<rparr>]
   \<and> wf_frame \<lparr> frame_width = 1, frame_height = 1, frame_data = [10, 20, 30, 255] \<rparr>
   \<and> (\<exists>r. averageFrames
              [\<lparr> frame_width = 1, frame_height = 1, frame_data = [10, 20, 30, 255] \<rparr>,
               \<lparr> frame_width = 1, frame_height = 1, frame_data = [11, 21, 30, 255] \<rparr>] = Inr r
          \<and> int (frame_data r ! 0)
              = Math_round (spec_channel_mean
                  [\<lparr> frame_width = 1, frame_height = 1, frame_data = [10, 20, 30, 255] \<rparr>,
                   \<lparr> frame_width = 1, frame_height = 1, frame_data = [11, 21, 30, 255] \<rparr>] 0))
   \<and> Math_round (spec_channel_mean
         [\<lparr> frame_width = 1, frame_height = 1, frame_data = [10, 20, 30, 255] \<rparr>,
          \<lparr> frame_width = 1, frame_height = 1, frame_data = [11, 21, 30, 255] \<rparr>] 0) = 11
   \<and> averageFrames [\<lparr> frame_width = 1, frame_height = 1, frame_data = [10, 20, 30, 255] \<rparr>]
       = Inr \<lparr> frame_width = 1, frame_height = 1, frame_data = [10, 20, 30, 255] \<rparr>"
proof -
  let ?a = "\<lparr> frame_width = 1, frame_height = 1, frame_data = [10, 20, 30, 255] \<rparr>"
  let ?b = "\<lparr> frame_width = 1, frame_height = 1, frame_data = [11, 21, 30, 255] \<rparr>"
  have ne: "[?a, ?b] \<noteq> []" by simp
  have wa: "wf_frame ?a" by (simp add: wf_frame_def)
  have sg: "same_geometry [?a, ?b]" by (simp add: same_geometry_def wf_frame_def)
  have m: "Math_round (spec_channel_mean [?a, ?b] 0) = 11"
    by (simp add: spec_channel_mean_def Math_round_def)
  from averageFrames_mean [of "[?a, ?b]" ?a] ne sg wa
  have "(\<exists>r. averageFrames [?a, ?b] = Inr r
          \<and> int (frame_data r ! 0) = Math_round (spec_channel_mean [?a, ?b] 0))
        \<and> averageFrames [?a] = Inr ?a"
    by auto
  then show ?thesis using ne sg wa m by blast
qed


section \<open>Morphology keeps masks binary\<close>

lemma fold_invariant:
  assumes "P s" and "\<And>x s. x \<in> set xs \<Longrightarrow> P s \<Longrightarrow> P (g x s)"
  shows "P (fold g xs s)"
  using assms by (induction xs arbitrary: s) simp_all

lemma fill2d_all:
  assumes init: "\<forall>v \<in> set init. P v" and f: "\<And>x y. P (f x y)"
  shows "\<forall>v \<in> set (fill2d w h f init). P v"
  unfolding fill2d_def
proof (rule fold_invariant [where P = "\<lambda>res. \<forall>v \<in> set res. P v"])
  show "\<forall>v \<in> set init. P v" by (rule init)
next
  fix y res assume res: "\<forall>v \<in> set res. P v"
  show "\<forall>v \<in> set (fold (\<lambda>x res. res[y * w + x := f x y]) [0..<w] res). P v"
  proof (rule fold_invariant [where P = "\<lambda>res. \<forall>v \<in> set res. P v"])
    show "\<forall>v \<in> set res. P v" by (rule res)
  next
    fix x r assume r: "\<forall>v \<in> set r. P v"
    have "set (r[y * w + x := f x y]) \<subseteq> insert (f x y) (set r)"
      by (rule set_update_subset_insert)
    then show "\<forall>v \<in> set (r[y * w + x := f x y]). P v" using r f by auto
  qed
qed

lemma length_fill2d: "length (fill2d w h f init) = length init"
  unfolding fill2d_def
  by (rule fold_invariant [where P = "\<lambda>res. length res = length init"], simp)
     (rule fold_invariant [where P = "\<lambda>res. length res = length init"], simp_all)

lemma u8_get_binary: "binary_mask msk \<Longrightarrow> bin_or_nan (u8_get msk i)"
  by (auto simp: binary_mask_def bin_or_nan_def u8_get_def)

lemma js_max_binary: "bin_or_nan a \<Longrightarrow> bin_or_nan b \<Longrightarrow> bin_or_nan (js_max a b)"
  by (auto simp: bin_or_nan_def js_max_def)

lemma js_min_binary: "bin_or_nan a \<Longrightarrow> bin_or_nan b \<Longrightarrow> bin_or_nan (js_min a b)"
  by (auto simp: bin_or_nan_def js_min_def)

lemma neighbourhood_binary:
  assumes m: "binary_mask msk" and s: "bin_or_nan start"
    and opr: "\<And>a b. bin_or_nan a \<Longrightarrow> bin_or_nan b \<Longrightarrow> bin_or_nan (opr a b)"
  shows "bin_or_nan (neighbourhood opr start msk w h half x y)"
  unfolding neighbourhood_def Let_def
  by (rule fold_invariant [where P = bin_or_nan], rule s)
     (rule fold_invariant [where P = bin_or_nan], assumption, rule opr, assumption,
      rule u8_get_binary [OF m])

lemma to_uint8_binary: "bin_or_nan v \<Longrightarrow> to_uint8 v = 0 \<or> to_uint8 v = 255"
  by (auto simp: bin_or_nan_def to_uint8_def)

lemma dilate_binary: "binary_mask msk \<Longrightarrow> binary_mask (dilate msk w h k)"
  unfolding dilate_def Let_def binary_mask_def [of "fill2d _ _ _ _"]
  by (rule fill2d_all, simp, rule to_uint8_binary, rule neighbourhood_binary)
     (simp_all add: bin_or_nan_def js_max_binary [unfolded bin_or_nan_def])

lemma erode_binary: "binary_mask msk \<Longrightarrow> binary_mask (erode msk w h k)"
  unfolding erode_def Let_def binary_mask_def [of "fill2d _ _ _ _"]
  by (rule fill2d_all, simp, rule to_uint8_binary, rule neighbourhood_binary)
     (simp_all add: bin_or_nan_def js_min_binary [unfolded bin_or_nan_def])

lemma length_dilate: "length (dilate msk w h k) = length msk"
  by (simp add: dilate_def Let_def length_fill2d)

lemma length_erode: "length (erode msk w h k) = length msk"
  by (simp add: erode_def Let_def length_fill2d)

text \<open>
  C10. Binary masks stay binary through morphology: for every mask whose values all lie in
  {0, 255} and every odd kernel size, the outputs of \<open>dilate\<close> and of \<open>erode\<close> have all
  values in {0, 255}, and so has the closing (dilate, then erode), which keeps the length
  of the mask: every pixel of it is exactly 0 or exactly 255.
\<close>

theorem morphology_keeps_binary:
  assumes "binary_mask msk" and "odd kernelSize"
  shows "binary_mask (dilate msk w h kernelSize)
       \<and> binary_mask (erode msk w h kernelSize)
       \<and> binary_mask (erode (dilate msk w h kernelSize) w h kernelSize)
       \<and> length (erode (dilate msk w h kernelSize) w h kernelSize) = length msk
       \<and> (\<forall>i < length msk. erode (dilate msk w h kernelSize) w h kernelSize ! i = 0
                           \<or> erode (dilate msk w h kernelSize) w h kernelSize ! i = 255)"
proof -
  have c: "binary_mask (erode (dilate msk w h kernelSize) w h kernelSize)"
    using assms(1) by (intro erode_binary dilate_binary)
  have l: "length (erode (dilate msk w h kernelSize) w h kernelSize) = length msk"
    by (simp add: length_erode length_dilate)
  have "\<forall>i < length msk. erode (dilate msk w h kernelSize) w h kernelSize ! i = 0
                           \<or> erode (dilate msk w h kernelSize) w h kernelSize ! i = 255"
    using c l unfolding binary_mask_def by (metis nth_mem)
  then show ?thesis using assms(1) c l by (simp add: erode_binary dilate_binary)
qed



lemma upto_m1_1: "[- 1..1] = [- 1, 0, 1::int]"
  by (simp add: upto.simps)

theorem morphology_keeps_binary_witness:
  "binary_mask [0, 255, 0, 0] \<and> odd (3::nat)
   \<and> dilate [0, 255, 0, 0] 4 1 3 = [255, 255, 255, 0]
   \<and> erode (dilate [0, 255, 0, 0] 4 1 3) 4 1 3 = [255, 255, 0, 0]
   \<and> binary_mask (erode (dilate [0, 255, 0, 0] 4 1 3) 4 1 3)"
proof -
  have b: "binary_mask [0, 255, 0, 0]" by (simp add: binary_mask_def)
  have o: "odd (3::nat)" by simp
  have d: "dilate [0, 255, 0, 0] 4 1 3 = [255, 255, 255, 0]"
    by (simp add: dilate_def fill2d_def neighbourhood_def Let_def upto_m1_1 clampi_def
         u8_get_def js_max_def to_uint8_def upt_conv_Cons)
  have e: "erode [255, 255, 255, 0] 4 1 3 = [255, 255, 0, 0]"
    by (simp add: erode_def fill2d_def neighbourhood_def Let_def upto_m1_1 clampi_def
         u8_get_def js_min_def to_uint8_def upt_conv_Cons)
  from morphology_keeps_binary [OF b o, of 4 1]
  show ?thesis using b d e by simp
qed

section \<open>Bounding-box refinement: what the scan returns\<close>

lemma refine_step_grows: "box_contains (refine_step d w y x b) b"
  by (simp add: refine_step_def box_contains_def)

lemma box_contains_trans: "box_contains a b \<Longrightarrow> box_contains b c \<Longrightarrow> box_contains a c"
  by (auto simp: box_contains_def)

lemma box_contains_refl: "box_contains a a"
  by (simp add: box_contains_def)

lemma in_box_mono: "box_contains a b \<Longrightarrow> in_box b x y \<Longrightarrow> in_box a x y"
  by (auto simp: box_contains_def in_box_def)

lemma row_covers:
  "box_contains (fold (refine_step d w y) xs b) b
   \<and> (\<forall>x \<in> set xs. f32_gt d (y * int w + x) 20 \<longrightarrow> in_box (fold (refine_step d w y) xs b) x y)"
proof (induction xs arbitrary: b)
  case Nil
  show ?case by (simp add: box_contains_refl)
next
  case (Cons a xs)
  let ?b1 = "refine_step d w y a b"
  let ?r = "fold (refine_step d w y) xs ?b1"
  have g: "box_contains ?r ?b1" using Cons.IH by blast
  have rest: "\<forall>x \<in> set xs. f32_gt d (y * int w + x) 20 \<longrightarrow> in_box ?r x y"
    using Cons.IH by blast
  have a: "f32_gt d (y * int w + a) 20 \<longrightarrow> in_box ?r a y"
  proof
    assume "f32_gt d (y * int w + a) 20"
    then have "in_box ?b1 a y" by (simp add: refine_step_def in_box_def)
    then show "in_box ?r a y" by (rule in_box_mono [OF g])
  qed
  have c: "box_contains ?r b"
    by (rule box_contains_trans [OF g refine_step_grows])
  have f: "fold (refine_step d w y) (a # xs) b = ?r" by simp
  show ?case unfolding f using c a rest by simp
qed

lemma rows_cover:
  "box_contains (fold (\<lambda>y b. fold (refine_step d w y) xs b) ys b) b
   \<and> (\<forall>y \<in> set ys. \<forall>x \<in> set xs. f32_gt d (y * int w + x) 20
         \<longrightarrow> in_box (fold (\<lambda>y b. fold (refine_step d w y) xs b) ys b) x y)"
proof (induction ys arbitrary: b)
  case Nil
  show ?case by (simp add: box_contains_refl)
next
  case (Cons a ys)
  let ?b1 = "fold (refine_step d w a) xs b"
  let ?r = "fold (\<lambda>y b. fold (refine_step d w y) xs b) ys ?b1"
  have g: "box_contains ?r ?b1" using Cons.IH by blast
  have rest: "\<forall>y \<in> set ys. \<forall>x \<in> set xs. f32_gt d (y * int w + x) 20 \<longrightarrow> in_box ?r x y"
    using Cons.IH by blast
  have r1: "box_contains ?b1 b" and
    r2: "\<forall>x \<in> set xs. f32_gt d (a * int w + x) 20 \<longrightarrow> in_box ?b1 x a"
    using row_covers [of d w a xs b] by blast+
  have a: "\<forall>x \<in> set xs. f32_gt d (a * int w + x) 20 \<longrightarrow> in_box ?r x a"
    using r2 in_box_mono [OF g] by blast
  have c: "box_contains ?r b" by (rule box_contains_trans [OF g r1])
  have f: "fold (\<lambda>y b. fold (refine_step d w y) xs b) (a # ys) b = ?r" by simp
  show ?case unfolding f using c a rest by simp
qed

lemma edge_inv_step:
  assumes inv: "edge_inv d w xs ys b0 b" and x: "x \<in> set xs" and y: "y \<in> set ys"
  shows "edge_inv d w xs ys b0 (refine_step d w y x b)"
proof (cases "f32_gt d (y * int w + x) 20")
  case False
  then show ?thesis using inv by (simp add: refine_step_def)
next
  case True
  let ?n = "refine_step d w y x b"
  have c1: "box_minX ?n = box_minX b0
      \<or> (\<exists>y \<in> set ys. box_minX ?n \<in> set xs \<and> f32_gt d (y * int w + box_minX ?n) 20)"
  proof (cases "x < box_minX b")
    case True
    then have "box_minX ?n = x" using \<open>f32_gt d (y * int w + x) 20\<close> by (simp add: refine_step_def)
    then show ?thesis using x y \<open>f32_gt d (y * int w + x) 20\<close> by auto
  next
    case False
    then have "box_minX ?n = box_minX b" using True by (simp add: refine_step_def)
    then show ?thesis using inv unfolding edge_inv_def by simp
  qed
  have c2: "box_maxX ?n = box_maxX b0
      \<or> (\<exists>y \<in> set ys. box_maxX ?n \<in> set xs \<and> f32_gt d (y * int w + box_maxX ?n) 20)"
  proof (cases "box_maxX b < x")
    case True
    then have "box_maxX ?n = x" using \<open>f32_gt d (y * int w + x) 20\<close> by (simp add: refine_step_def)
    then show ?thesis using x y \<open>f32_gt d (y * int w + x) 20\<close> by auto
  next
    case False
    then have "box_maxX ?n = box_maxX b" using True by (simp add: refine_step_def)
    then show ?thesis using inv unfolding edge_inv_def by simp
  qed
  have c3: "box_minY ?n = box_minY b0
      \<or> (\<exists>x \<in> set xs. box_minY ?n \<in> set ys \<and> f32_gt d (box_minY ?n * int w + x) 20)"
  proof (cases "y < box_minY b")
    case True
    then have "box_minY ?n = y" using \<open>f32_gt d (y * int w + x) 20\<close> by (simp add: refine_step_def)
    then show ?thesis using x y \<open>f32_gt d (y * int w + x) 20\<close> by auto
  next
    case False
    then have "box_minY ?n = box_minY b" using True by (simp add: refine_step_def)
    then show ?thesis using inv unfolding edge_inv_def by simp
  qed
  have c4: "box_maxY ?n = box_maxY b0
      \<or> (\<exists>x \<in> set xs. box_maxY ?n \<in> set ys \<and> f32_gt d (box_maxY ?n * int w + x) 20)"
  proof (cases "box_maxY b < y")
    case True
    then have "box_maxY ?n = y" using \<open>f32_gt d (y * int w + x) 20\<close> by (simp add: refine_step_def)
    then show ?thesis using x y \<open>f32_gt d (y * int w + x) 20\<close> by auto
  next
    case False
    then have "box_maxY ?n = box_maxY b" using True by (simp add: refine_step_def)
    then show ?thesis using inv unfolding edge_inv_def by simp
  qed
  show ?thesis unfolding edge_inv_def using c1 c2 c3 c4 by blast
qed

lemma edge_inv_fold:
  assumes "edge_inv d w xs ys b0 b" "set ys' \<subseteq> set ys"
  shows "edge_inv d w xs ys b0 (fold (\<lambda>y b. fold (refine_step d w y) xs b) ys' b)"
proof (rule fold_invariant [where P = "edge_inv d w xs ys b0"])
  show "edge_inv d w xs ys b0 b" by (rule assms)
next
  fix y s assume y: "y \<in> set ys'" and s: "edge_inv d w xs ys b0 s"
  show "edge_inv d w xs ys b0 (fold (refine_step d w y) xs s)"
    by (rule fold_invariant [where P = "edge_inv d w xs ys b0"], rule s)
       (rule edge_inv_step, assumption, assumption, use y assms(2) in blast)
qed

lemma refine_window:
  "refineBoundingBox d w h minX minY maxX maxY
     = fold (\<lambda>y b. fold (refine_step d w y) [max 0 (minX - 5)..min (int w - 1) (maxX + 5)] b)
         [max 0 (minY - 5)..min (int h - 1) (maxY + 5)]
         \<lparr> box_minX = maxX, box_maxX = minX, box_minY = maxY, box_maxY = minY \<rparr>"
  by (simp add: refineBoundingBox_def Let_def)

lemma window_edge_pixel_iff:
  "window_edge_pixel d w h minX minY maxX maxY x y \<longleftrightarrow>
     x \<in> set [max 0 (minX - 5)..min (int w - 1) (maxX + 5)]
     \<and> y \<in> set [max 0 (minY - 5)..min (int h - 1) (maxY + 5)]
     \<and> f32_gt d (y * int w + x) 20"
  by (auto simp: window_edge_pixel_def)

lemma refine_edges:
  fixes d :: "real list" and w h :: nat and minX minY maxX maxY :: int
  defines "r \<equiv> refineBoundingBox d w h minX minY maxX maxY"
  shows "(box_minX r = maxX \<or> (\<exists>y. window_edge_pixel d w h minX minY maxX maxY (box_minX r) y))
       \<and> (box_maxX r = minX \<or> (\<exists>y. window_edge_pixel d w h minX minY maxX maxY (box_maxX r) y))
       \<and> (box_minY r = maxY \<or> (\<exists>x. window_edge_pixel d w h minX minY maxX maxY x (box_minY r)))
       \<and> (box_maxY r = minY \<or> (\<exists>x. window_edge_pixel d w h minX minY maxX maxY x (box_maxY r)))"
proof -
  let ?xs = "[max 0 (minX - 5)..min (int w - 1) (maxX + 5)]"
  let ?ys = "[max 0 (minY - 5)..min (int h - 1) (maxY + 5)]"
  let ?b0 = "\<lparr> box_minX = maxX, box_maxX = minX, box_minY = maxY, box_maxY = minY \<rparr>"
  have "edge_inv d w ?xs ?ys ?b0 ?b0" by (simp add: edge_inv_def)
  then have "edge_inv d w ?xs ?ys ?b0 r"
    unfolding r_def refine_window by (rule edge_inv_fold) simp
  then show ?thesis
    unfolding edge_inv_def window_edge_pixel_iff box.select_convs by blast
qed

lemma refine_covers:
  fixes d :: "real list" and w h :: nat and minX minY maxX maxY :: int
  defines "r \<equiv> refineBoundingBox d w h minX minY maxX maxY"
  shows "box_minX r \<le> maxX \<and> minX \<le> box_maxX r \<and> box_minY r \<le> maxY \<and> minY \<le> box_maxY r"
    and "window_edge_pixel d w h minX minY maxX maxY x y \<Longrightarrow> in_box r x y"
proof -
  let ?xs = "[max 0 (minX - 5)..min (int w - 1) (maxX + 5)]"
  let ?ys = "[max 0 (minY - 5)..min (int h - 1) (maxY + 5)]"
  let ?b0 = "\<lparr> box_minX = maxX, box_maxX = minX, box_minY = maxY, box_maxY = minY \<rparr>"
  have g: "box_contains r ?b0"
    and c: "\<forall>y \<in> set ?ys. \<forall>x \<in> set ?xs. f32_gt d (y * int w + x) 20 \<longrightarrow> in_box r x y"
    unfolding r_def refine_window using rows_cover [of d w ?xs ?ys ?b0] by blast+
  show "box_minX r \<le> maxX \<and> minX \<le> box_maxX r \<and> box_minY r \<le> maxY \<and> minY \<le> box_maxY r"
    using g by (simp add: box_contains_def)
  show "window_edge_pixel d w h minX minY maxX maxY x y \<Longrightarrow> in_box r x y"
    using c unfolding window_edge_pixel_iff by blast
qed

text \<open>
  C5, as the code has it. For every difference map and every box inside the image (with
  \<open>minX \<le> maxX\<close> and \<open>minY \<le> maxY\<close>), \<open>refineBoundingBox\<close> starts from the inverted
  box (left edge at \<open>maxX\<close>, right edge at \<open>minX\<close>, and so for y) and stretches it over the
  pixels of the padded search window whose difference exceeds 20. Every refined edge lies
  in the search window, hence at most 5 pixels outside the input box and inside the image;
  an edge leaves its start value only for the coordinate of a window pixel whose difference
  exceeds 20; every such pixel lies in the refined box; and the refined box contains the
  input box when such pixels exist at or beyond each of the four input edges.
\<close>

theorem refineBoundingBox_window:
  fixes d :: "real list" and w h :: nat and minX minY maxX maxY :: int
  assumes "0 \<le> minX" "minX \<le> maxX" "maxX < int w" "0 \<le> minY" "minY \<le> maxY" "maxY < int h"
  defines "r \<equiv> refineBoundingBox d w h minX minY maxX maxY"
  shows "max 0 (minX - 5) \<le> box_minX r \<and> box_minX r \<le> maxX
       \<and> minX \<le> box_maxX r \<and> box_maxX r \<le> min (int w - 1) (maxX + 5)
       \<and> max 0 (minY - 5) \<le> box_minY r \<and> box_minY r \<le> maxY
       \<and> minY \<le> box_maxY r \<and> box_maxY r \<le> min (int h - 1) (maxY + 5)
       \<and> (box_minX r = maxX \<or> (\<exists>y. window_edge_pixel d w h minX minY maxX maxY (box_minX r) y))
       \<and> (box_maxX r = minX \<or> (\<exists>y. window_edge_pixel d w h minX minY maxX maxY (box_maxX r) y))
       \<and> (box_minY r = maxY \<or> (\<exists>x. window_edge_pixel d w h minX minY maxX maxY x (box_minY r)))
       \<and> (box_maxY r = minY \<or> (\<exists>x. window_edge_pixel d w h minX minY maxX maxY x (box_maxY r)))
       \<and> (\<forall>x y. window_edge_pixel d w h minX minY maxX maxY x y \<longrightarrow> in_box r x y)
       \<and> ((\<exists>x y. window_edge_pixel d w h minX minY maxX maxY x y \<and> x \<le> minX)
          \<and> (\<exists>x y. window_edge_pixel d w h minX minY maxX maxY x y \<and> maxX \<le> x)
          \<and> (\<exists>x y. window_edge_pixel d w h minX minY maxX maxY x y \<and> y \<le> minY)
          \<and> (\<exists>x y. window_edge_pixel d w h minX minY maxX maxY x y \<and> maxY \<le> y)
          \<longrightarrow> box_contains r \<lparr> box_minX = minX, box_maxX = maxX, box_minY = minY, box_maxY = maxY \<rparr>)"
proof -
  note e = refine_edges [of d w h minX minY maxX maxY, folded r_def]
  note g = refine_covers(1) [of d w h minX minY maxX maxY, folded r_def]
  have c: "\<And>x y. window_edge_pixel d w h minX minY maxX maxY x y \<Longrightarrow> in_box r x y"
    unfolding r_def by (rule refine_covers(2))
  have x1: "max 0 (minX - 5) \<le> box_minX r" using e assms(1-3) by (auto simp: window_edge_pixel_def)
  have x2: "box_maxX r \<le> min (int w - 1) (maxX + 5)" using e assms(1-3) by (auto simp: window_edge_pixel_def)
  have y1: "max 0 (minY - 5) \<le> box_minY r" using e assms(4-6) by (auto simp: window_edge_pixel_def)
  have y2: "box_maxY r \<le> min (int h - 1) (maxY + 5)" using e assms(4-6) by (auto simp: window_edge_pixel_def)
  have k: "(\<exists>x y. window_edge_pixel d w h minX minY maxX maxY x y \<and> x \<le> minX)
          \<and> (\<exists>x y. window_edge_pixel d w h minX minY maxX maxY x y \<and> maxX \<le> x)
          \<and> (\<exists>x y. window_edge_pixel d w h minX minY maxX maxY x y \<and> y \<le> minY)
          \<and> (\<exists>x y. window_edge_pixel d w h minX minY maxX maxY x y \<and> maxY \<le> y)
          \<longrightarrow> box_contains r \<lparr> box_minX = minX, box_maxX = maxX, box_minY = minY, box_maxY = maxY \<rparr>"
  proof (intro impI, elim conjE exE)
    fix xa ya xb yb xc yc xd yd
    assume "window_edge_pixel d w h minX minY maxX maxY xa ya" "xa \<le> minX"
      "window_edge_pixel d w h minX minY maxX maxY xb yb" "maxX \<le> xb"
      "window_edge_pixel d w h minX minY maxX maxY xc yc" "yc \<le> minY"
      "window_edge_pixel d w h minX minY maxX maxY xd yd" "maxY \<le> yd"
    then have "in_box r xa ya" "xa \<le> minX" "in_box r xb yb" "maxX \<le> xb"
      "in_box r xc yc" "yc \<le> minY" "in_box r xd yd" "maxY \<le> yd"
      using c by blast+
    then show "box_contains r \<lparr> box_minX = minX, box_maxX = maxX, box_minY = minY, box_maxY = maxY \<rparr>"
      by (simp add: in_box_def box_contains_def)
  qed
  show ?thesis using x1 x2 y1 y2 g e c k by blast
qed

theorem refineBoundingBox_window_witness:
  "(0::int) \<le> 1 \<and> (1::int) \<le> 3 \<and> (3::int) < int 5
   \<and> refineBoundingBox (replicate 25 50) 5 5 1 1 3 3
       = \<lparr> box_minX = 0, box_maxX = 4, box_minY = 0, box_maxY = 4 \<rparr>
   \<and> max 0 (1 - 5) \<le> box_minX (refineBoundingBox (replicate 25 50) 5 5 1 1 3 3)
   \<and> box_maxX (refineBoundingBox (replicate 25 50) 5 5 1 1 3 3) \<le> min (int 5 - 1) (3 + 5)"
proof -
  have a: "(0::int) \<le> 1" "(1::int) \<le> 3" "(3::int) < int 5" by simp_all
  have e: "refineBoundingBox (replicate 25 50) 5 5 1 1 3 3
       = \<lparr> box_minX = 0, box_maxX = 4, box_minY = 0, box_maxY = 4 \<rparr>"
    by code_simp
  from refineBoundingBox_window [OF a a, of "replicate 25 50"]
  show ?thesis using a e by simp
qed

text \<open>
  C5 as stated fails: with a difference map whose only value above 20 is the centre pixel
  of a 5 x 5 image and the input box (1,1)-(3,3), the refined box is the single pixel
  (2,2), which does not contain the input box: the edges moved inward.
\<close>

theorem refineBoundingBox_outward_counterexample:
  "refineBoundingBox [0, 0, 0, 0, 0,
                      0, 0, 0, 0, 0,
                      0, 0, 50, 0, 0,
                      0, 0, 0, 0, 0,
                      0, 0, 0, 0, 0] 5 5 1 1 3 3
     = \<lparr> box_minX = 2, box_maxX = 2, box_minY = 2, box_maxY = 2 \<rparr>
   \<and> \<not> box_contains
         (refineBoundingBox [0, 0, 0, 0, 0,
                             0, 0, 0, 0, 0,
                             0, 0, 50, 0, 0,
                             0, 0, 0, 0, 0,
                             0, 0, 0, 0, 0] 5 5 1 1 3 3)
         \<lparr> box_minX = 1, box_maxX = 3, box_minY = 1, box_maxY = 3 \<rparr>"
proof -
  have e: "refineBoundingBox [0, 0, 0, 0, 0,
                      0, 0, 0, 0, 0,
                      0, 0, 50, 0, 0,
                      0, 0, 0, 0, 0,
                      0, 0, 0, 0, 0] 5 5 1 1 3 3
     = \<lparr> box_minX = 2, box_maxX = 2, box_minY = 2, box_maxY = 2 \<rparr>"
    by code_simp
  show ?thesis unfolding e by (simp add: box_contains_def)
qed

section \<open>Double-precision numbers: the nearest double\<close>

lemma bit_length_numeral [simp]:
  "bit_length 0 = 0"
  "bit_length (Suc 0) = 1"
  "bit_length (numeral k) = Suc (bit_length (numeral k div 2))"
  by (simp_all add: bit_length.simps [of 0] bit_length.simps [of "Suc 0"]
        bit_length.simps [of "numeral k"])

lemma bit_length_bounds:
  assumes "0 < n"
  shows "2 ^ (bit_length n - 1) \<le> n" and "n < 2 ^ bit_length n"
  using assms
proof (induction n rule: bit_length.induct)
  case (1 n)
  { case 1
    note pos = this
    show ?case
    proof (cases "n div 2 = 0")
      case True
      then have "n = 1" using pos by auto
      then show ?thesis by simp
    next
      case False
      then have h: "0 < n div 2" by simp
      have ih: "2 ^ (bit_length (n div 2) - 1) \<le> n div 2" using "1.IH"(1) pos h by simp
      have b: "0 < bit_length (n div 2)" using h by (simp add: bit_length.simps [of "n div 2"])
      have "bit_length n - 1 = Suc (bit_length (n div 2) - 1)"
        using pos b by (simp add: bit_length.simps [of n])
      then have "(2::nat) ^ (bit_length n - 1) = 2 * 2 ^ (bit_length (n div 2) - 1)" by simp
      also have "\<dots> \<le> 2 * (n div 2)" using ih by simp
      also have "\<dots> \<le> n" by simp
      finally show ?thesis .
    qed }
  { case 2
    note pos = this
    show ?case
    proof (cases "n div 2 = 0")
      case True
      then have "n = 1" using pos by auto
      then show ?thesis by simp
    next
      case False
      then have h: "0 < n div 2" by simp
      have ih: "n div 2 < 2 ^ bit_length (n div 2)" using "1.IH"(2) pos h by simp
      have "n < 2 * (n div 2 + 1)" by simp
      also have "\<dots> \<le> 2 * 2 ^ bit_length (n div 2)" using ih by simp
      also have "\<dots> = 2 ^ bit_length n" using pos by (simp add: bit_length.simps [of n])
      finally show ?thesis .
    qed }
qed

lemma pow2_pos: "0 < pow2 e"
  by (simp add: pow2_def)

lemma pow2_nat: "pow2 (int n) = 2 ^ n"
  by (simp add: pow2_def)

lemma pow2_neg_nat: "pow2 (- int n) = 1 / 2 ^ n"
  by (auto simp: pow2_def)

lemma pow2_powr: "pow2 e = 2 powr real_of_int e"
proof (cases "0 \<le> e")
  case True
  then have e: "real_of_int e = real (nat e)" by simp
  have "(2::real) powr real (nat e) = 2 ^ nat e" by (rule powr_realpow) simp
  then show ?thesis unfolding e using True by (simp only: pow2_def if_True)
next
  case False
  then have e: "real_of_int e = - real (nat (- e))" by simp
  have "(2::real) powr real (nat (- e)) = 2 ^ nat (- e)" by (rule powr_realpow) simp
  then have "(2::real) powr (- real (nat (- e))) = 1 / 2 ^ nat (- e)"
    by (simp only: powr_minus_divide)
  then show ?thesis unfolding e using False by (simp only: pow2_def if_False)
qed

lemma pow2_add: "pow2 (a + b) = pow2 a * pow2 b"
  by (simp add: pow2_powr powr_add)

lemma pow2_diff: "pow2 (a - b) = pow2 a / pow2 b"
  by (simp add: pow2_powr powr_diff)

lemma pow2_less_iff: "pow2 a < pow2 b \<longleftrightarrow> a < b"
  by (simp add: pow2_powr)

lemma pow2_le_iff: "pow2 a \<le> pow2 b \<longleftrightarrow> a \<le> b"
  by (simp add: pow2_powr)

text \<open>\<open>binade r\<close> is the exponent of \<open>r\<close>: \<open>2 ^ binade r \<le> |r| < 2 ^ (binade r + 1)\<close>.\<close>

lemma binade_bounds:
  assumes "r \<noteq> 0"
  shows "pow2 (binade r) \<le> \<bar>r\<bar>" and "\<bar>r\<bar> < pow2 (binade r + 1)"
proof -
  define a where "a = \<bar>r\<bar>"
  have a: "0 < a" using assms by (simp add: a_def)
  have "pow2 (binade r) \<le> a \<and> a < pow2 (binade r + 1)"
  proof (cases "1 \<le> a")
    case True
    define n where "n = nat \<lfloor>a\<rfloor>"
    have n: "0 < n" using True by (simp add: n_def)
    have "0 \<le> \<lfloor>a\<rfloor>" using True by simp
    then have "real n = real_of_int \<lfloor>a\<rfloor>" by (simp add: n_def)
    then have fl: "real n \<le> a" "a < real n + 1" by linarith+
    define k where "k = bit_length n"
    have k: "0 < k" using n by (simp add: k_def bit_length.simps [of n])
    have b: "binade r = int (k - 1)" using True k
      by (simp add: binade_def a_def [symmetric] Let_def n_def k_def of_nat_diff)
    have "2 ^ (k - 1) \<le> n" "Suc n \<le> 2 ^ k"
      using bit_length_bounds [OF n] unfolding k_def [symmetric] by simp_all
    then have "real (2 ^ (k - 1)) \<le> real n" "real (Suc n) \<le> real (2 ^ k)"
      by (simp_all only: of_nat_le_iff)
    then have "(2::real) ^ (k - 1) \<le> real n" "real n + 1 \<le> (2::real) ^ k" by simp_all
    then have "2 ^ (k - 1) \<le> a" "a < 2 ^ k" using fl by linarith+
    moreover have "binade r + 1 = int k" using b k by simp
    ultimately show ?thesis unfolding b pow2_nat by (simp add: pow2_nat)
  next
    case False
    define y where "y = 1 / a"
    have y: "1 < y" using False a by (simp add: y_def)
    define n where "n = nat (\<lceil>y\<rceil> - 1)"
    have c: "2 \<le> \<lceil>y\<rceil>" using y by linarith
    have n: "0 < n" using c by (simp add: n_def)
    have "real n = real_of_int \<lceil>y\<rceil> - 1" using c by (simp add: n_def)
    then have cl: "real n < y" "y \<le> real n + 1" by linarith+
    define k where "k = bit_length n"
    have b: "binade r = - int k" using False
      by (simp add: binade_def a_def [symmetric] Let_def n_def k_def y_def)
    have k: "0 < k" using n by (simp add: k_def bit_length.simps [of n])
    have "2 ^ (k - 1) \<le> n" "Suc n \<le> 2 ^ k"
      using bit_length_bounds [OF n] unfolding k_def [symmetric] by simp_all
    then have "real (2 ^ (k - 1)) \<le> real n" "real (Suc n) \<le> real (2 ^ k)"
      by (simp_all only: of_nat_le_iff)
    then have "(2::real) ^ (k - 1) \<le> real n" "real n + 1 \<le> (2::real) ^ k" by simp_all
    then have yb: "2 ^ (k - 1) < y" "y \<le> 2 ^ k" using cl by linarith+
    have ay: "a = 1 / y" using a by (simp add: y_def)
    have lo: "1 / 2 ^ k \<le> a" unfolding ay
      by (rule frac_le) (use yb(2) y in simp_all)
    have hi: "a < 1 / 2 ^ (k - 1)" unfolding ay
      by (rule frac_less2) (use yb(1) in simp_all)
    have b1: "binade r + 1 = - int (k - 1)" using b k by (simp add: of_nat_diff)
    show ?thesis unfolding b1 unfolding b pow2_neg_nat using lo hi by blast
  qed
  then show "pow2 (binade r) \<le> \<bar>r\<bar>" and "\<bar>r\<bar> < pow2 (binade r + 1)"
    by (simp_all add: a_def)
qed

lemma binade_unique:
  assumes "pow2 e \<le> \<bar>r\<bar>" "\<bar>r\<bar> < pow2 (e + 1)"
  shows "binade r = e"
proof -
  have r: "r \<noteq> 0" using assms(1) pow2_pos [of e] by auto
  note b = binade_bounds [OF r]
  have "pow2 e < pow2 (binade r + 1)" using assms(1) b(2) by simp
  moreover have "pow2 (binade r) < pow2 (e + 1)" using assms(2) b(1) by simp
  ultimately show ?thesis unfolding pow2_less_iff by simp
qed

lemma round_half_even_nearest: "\<bar>real_of_int (round_half_even r) - r\<bar> \<le> 1 / 2"
  unfolding round_half_even_def Let_def by (auto; linarith)

lemma round_half_even_int: "round_half_even (real_of_int m) = m"
  by (simp add: round_half_even_def)

text \<open>
  \<open>to_double r\<close> is a multiple of the spacing of the doubles in the binade of \<open>r\<close>, at
  most half that spacing away from \<open>r\<close>; a number that is such a multiple already (a
  53-bit integer times a power of two) is left as it is.
\<close>

lemma to_double_nearest:
  "\<bar>to_double r - r\<bar> \<le> pow2 (binade r - 52) / 2"
proof (cases "r = 0")
  case True
  then show ?thesis using pow2_pos [of "binade r - 52"] by (simp add: to_double_def)
next
  case False
  define u where "u = pow2 (binade r - 52)"
  have u: "0 < u" by (simp add: u_def pow2_pos)
  have "\<bar>real_of_int (round_half_even (r / u)) - r / u\<bar> \<le> 1 / 2"
    by (rule round_half_even_nearest)
  then have "\<bar>real_of_int (round_half_even (r / u)) - r / u\<bar> * u \<le> 1 / 2 * u"
    using u by (intro mult_right_mono) simp_all
  moreover have "\<bar>real_of_int (round_half_even (r / u)) - r / u\<bar> * u
      = \<bar>real_of_int (round_half_even (r / u)) * u - r\<bar>"
  proof -
    have "real_of_int (round_half_even (r / u)) * u - r
        = (real_of_int (round_half_even (r / u)) - r / u) * u"
      using u by (simp add: left_diff_distrib)
    then show ?thesis using u by (simp add: abs_mult)
  qed
  ultimately show ?thesis using False by (simp add: to_double_def Let_def u_def)
qed

lemma to_double_representable:
  assumes "\<bar>m\<bar> < 2 ^ 53"
  shows "to_double (real_of_int m * pow2 e) = real_of_int m * pow2 e"
proof (cases "m = 0")
  case True
  then show ?thesis by (simp add: to_double_def)
next
  case False
  define r where "r = real_of_int m * pow2 e"
  have r: "r \<noteq> 0" using False pow2_pos [of e] by (simp add: r_def)
  define b where "b = binade r"
  have "pow2 b \<le> \<bar>r\<bar>" unfolding b_def by (rule binade_bounds(1) [OF r])
  also have "\<bar>r\<bar> = \<bar>real_of_int m\<bar> * pow2 e"
    using pow2_pos [of e] by (simp add: r_def abs_mult)
  also have "\<dots> < 2 ^ 53 * pow2 e"
  proof -
    have "real_of_int \<bar>m\<bar> < real_of_int (2 ^ 53)" using assms by (simp only: of_int_less_iff)
    then show ?thesis using pow2_pos [of e] by simp
  qed
  also have "\<dots> = pow2 (53 + e)"
  proof -
    have "pow2 53 = 2 ^ 53" by (simp add: pow2_def)
    then show ?thesis by (simp only: pow2_add)
  qed
  finally have "b < 53 + e" by (simp add: pow2_less_iff)
  then have k: "0 \<le> e - (b - 52)" by simp
  define j where "j = nat (e - (b - 52))"
  have p: "pow2 e / pow2 (b - 52) = pow2 (int j)"
    using k by (simp add: pow2_diff [symmetric] j_def)
  have "r / pow2 (b - 52) = real_of_int m * (pow2 e / pow2 (b - 52))" by (simp add: r_def)
  also have "\<dots> = real_of_int m * pow2 (int j)" by (simp only: p)
  also have "\<dots> = real_of_int (m * 2 ^ j)" by (simp add: pow2_nat)
  finally have q: "r / pow2 (b - 52) = real_of_int (m * 2 ^ j)" .
  have "to_double r = real_of_int (round_half_even (r / pow2 (b - 52))) * pow2 (b - 52)"
    using r by (simp add: to_double_def Let_def b_def)
  also have "\<dots> = r / pow2 (b - 52) * pow2 (b - 52)"
    unfolding q round_half_even_int ..
  also have "\<dots> = r" using pow2_pos [of "b - 52"] by simp
  finally show ?thesis by (simp add: r_def)
qed


section \<open>Area colour sampling of a uniform region\<close>

lemma fold_invariant_nonempty:
  assumes "xs \<noteq> []" and "P s" and "\<And>x s. x \<in> set xs \<Longrightarrow> P s \<Longrightarrow> Q (g x s)"
    and "\<And>s. Q s \<Longrightarrow> P s"
  shows "Q (fold g xs s)"
proof -
  obtain x xs' where xs: "xs = x # xs'" using assms(1) by (cases xs) auto
  have q: "Q (g x s)" using assms(2,3) xs by simp
  have "Q (fold g xs' (g x s))"
    by (rule fold_invariant [where P = Q], rule q) (use assms(3,4) xs in auto)
  then show ?thesis by (simp add: xs)
qed

lemma sample_step_const:
  assumes "const_acc cr cg cb acc"
    and "real (data ! ((y * areaW + x) * 4)) = cr"
    and "real (data ! ((y * areaW + x) * 4 + 1)) = cg"
    and "real (data ! ((y * areaW + x) * 4 + 2)) = cb"
  shows "const_acc_pos cr cg cb (sample_step data areaW areaH y x acc)"
proof -
  obtain tR tG tB tW where acc: "acc = (tR, tG, tB, tW)" by (cases acc) auto
  show ?thesis using assms
    by (simp add: acc const_acc_def const_acc_pos_def sample_step_def Let_def algebra_simps
        add_nonneg_pos)
qed

lemma getImageData_nth:
  assumes "x < sw" "y < sh" "k < 4"
    and "0 \<le> sx" "sx + int sw \<le> int (canvas_width cv)"
    and "0 \<le> sy" "sy + int sh \<le> int (canvas_height cv)"
  shows "frame_data (getImageData cv sx sy sw sh) ! ((y * sw + x) * 4 + k)
       = canvas_rgba cv (nat (sx + int x)) (nat (sy + int y)) k"
proof -
  have "y * sw + x < sh * sw"
  proof -
    have "y * sw + x < y * sw + sw" using assms(1) by simp
    also have "\<dots> = (y + 1) * sw" by simp
    also have "\<dots> \<le> sh * sw" using assms(2) by (intro mult_le_mono1) simp
    finally show ?thesis .
  qed
  then have lt0: "(y * sw + x) * 4 + k < 4 * sw * sh" using assms(3) by (simp add: algebra_simps)
  define i where "i = (y * sw + x) * 4 + k"
  have lt: "i < 4 * sw * sh" using lt0 by (simp add: i_def)
  have d: "i div 4 = y * sw + x"
    unfolding i_def using assms(3) div_mult_self4 [of 4 "y * sw + x" k] by (simp add: mult.commute)
  have m: "i mod 4 = k"
    unfolding i_def using assms(3) mod_mult_self4 [of 4 "y * sw + x" k] by (simp add: mult.commute)
  have px: "(y * sw + x) mod sw = x" using assms(1) by simp
  have py: "(y * sw + x) div sw = y" using assms(1) by simp
  have "frame_data (getImageData cv sx sy sw sh) ! i
      = (if 0 \<le> sx + int ((i div 4) mod sw) \<and> sx + int ((i div 4) mod sw) < int (canvas_width cv)
            \<and> 0 \<le> sy + int ((i div 4) div sw) \<and> sy + int ((i div 4) div sw) < int (canvas_height cv)
         then canvas_rgba cv (nat (sx + int ((i div 4) mod sw))) (nat (sy + int ((i div 4) div sw))) (i mod 4)
         else 0)"
    unfolding getImageData_def using lt by (simp add: Let_def del: upt_Suc)
  also have "\<dots> = canvas_rgba cv (nat (sx + int x)) (nat (sy + int y)) k"
    unfolding d m px py using assms by simp
  finally show ?thesis unfolding i_def .
qed

lemma const_acc_pos_weaken: "const_acc_pos cr cg cb acc \<Longrightarrow> const_acc cr cg cb acc"
  by (cases acc) (simp add: const_acc_def const_acc_pos_def)

text \<open>
  C8, as the code has it. For every screen record with an area whose sampling rectangle
  (the floors of the products as the code computes them) lies inside the virtual canvas, and every canvas whose pixels inside that rectangle all
  have the same RGB colour c, \<open>sampleAreaColor\<close> returns exactly c: the weights are
  positive, the weighted average of a constant is the constant, and rounding an integer
  gives it back.
\<close>

theorem sampleAreaColor_uniform:
  assumes a: "screen_area scr = Some area"
    and inc: "rect_in_canvas cv (sampling_rect cfg area)"
    and uni: "uniform_rect cv (sampling_rect cfg area) cr cg cb"
  shows "sampleAreaColor cfg cv scr
       = Inr \<lparr> color_r = int cr, color_g = int cg, color_b = int cb \<rparr>"
proof -
  obtain areaX areaY areaW areaH where sr: "sampling_rect cfg area = (areaX, areaY, areaW, areaH)"
    by (cases "sampling_rect cfg area") auto
  have pos: "0 < areaW" "0 < areaH"
    using sr by (auto simp: sampling_rect_def Let_def)
  have ic: "0 \<le> areaX" "areaX + int areaW \<le> int (canvas_width cv)"
    "0 \<le> areaY" "areaY + int areaH \<le> int (canvas_height cv)"
    using inc by (simp_all add: sr rect_in_canvas_def)
  let ?data = "frame_data (getImageData cv areaX areaY areaW areaH)"
  have px: "real (?data ! ((y * areaW + x) * 4)) = real cr
          \<and> real (?data ! ((y * areaW + x) * 4 + 1)) = real cg
          \<and> real (?data ! ((y * areaW + x) * 4 + 2)) = real cb"
    if x: "x < areaW" and y: "y < areaH" for x y
  proof -
    have n: "\<And>k. k < 4 \<Longrightarrow> ?data ! ((y * areaW + x) * 4 + k)
        = canvas_rgba cv (nat (areaX + int x)) (nat (areaY + int y)) k"
      by (rule getImageData_nth [OF x y _ ic])
    have inside: "areaX \<le> int (nat (areaX + int x))"
      "int (nat (areaX + int x)) < areaX + int areaW"
      "int (nat (areaX + int x)) < int (canvas_width cv)"
      "areaY \<le> int (nat (areaY + int y))"
      "int (nat (areaY + int y)) < areaY + int areaH"
      "int (nat (areaY + int y)) < int (canvas_height cv)"
      using x y ic by simp_all
    have c: "canvas_rgba cv (nat (areaX + int x)) (nat (areaY + int y)) 0 = cr
        \<and> canvas_rgba cv (nat (areaX + int x)) (nat (areaY + int y)) 1 = cg
        \<and> canvas_rgba cv (nat (areaX + int x)) (nat (areaY + int y)) 2 = cb"
      using uni inside unfolding sr uniform_rect_def by blast
    show ?thesis using n [of 0] n [of 1] n [of 2] c by simp
  qed
  have inner: "const_acc_pos (real cr) (real cg) (real cb)
                 (fold (sample_step ?data areaW areaH y) [0..<areaW] acc)"
    if y: "y < areaH" and acc: "const_acc (real cr) (real cg) (real cb) acc" for y acc
  proof (rule fold_invariant_nonempty [where P = "const_acc (real cr) (real cg) (real cb)"])
    show "[0..<areaW] \<noteq> []" using pos by simp
    show "const_acc (real cr) (real cg) (real cb) acc" by (rule acc)
  next
    fix x s assume "x \<in> set [0..<areaW]" and s: "const_acc (real cr) (real cg) (real cb) s"
    then have x: "x < areaW" by simp
    show "const_acc_pos (real cr) (real cg) (real cb) (sample_step ?data areaW areaH y x s)"
      using px [OF x y] by (intro sample_step_const [OF s]) simp_all
  next
    fix s assume "const_acc_pos (real cr) (real cg) (real cb) s"
    then show "const_acc (real cr) (real cg) (real cb) s" by (rule const_acc_pos_weaken)
  qed
  have outer: "const_acc_pos (real cr) (real cg) (real cb)
                 (fold (\<lambda>y acc. fold (sample_step ?data areaW areaH y) [0..<areaW] acc)
                    [0..<areaH] (0, 0, 0, 0))"
  proof (rule fold_invariant_nonempty [where P = "const_acc (real cr) (real cg) (real cb)"])
    show "[0..<areaH] \<noteq> []" using pos by simp
    show "const_acc (real cr) (real cg) (real cb) (0, 0, 0, 0)" by (simp add: const_acc_def)
  next
    fix y s assume "y \<in> set [0..<areaH]" and s: "const_acc (real cr) (real cg) (real cb) s"
    then have y: "y < areaH" by simp
    show "const_acc_pos (real cr) (real cg) (real cb)
            (fold (sample_step ?data areaW areaH y) [0..<areaW] s)"
      by (rule inner [OF y s])
  next
    fix s assume "const_acc_pos (real cr) (real cg) (real cb) s"
    then show "const_acc (real cr) (real cg) (real cb) s" by (rule const_acc_pos_weaken)
  qed
  obtain tR tG tB tW where f: "fold (\<lambda>y acc. fold (sample_step ?data areaW areaH y) [0..<areaW] acc)
                    [0..<areaH] (0, 0, 0, 0) = (tR, tG, tB, tW)"
    by (cases "fold (\<lambda>y acc. fold (sample_step ?data areaW areaH y) [0..<areaW] acc)
                    [0..<areaH] (0, 0, 0, 0)") auto
  have t: "tR = real cr * tW" "tG = real cg * tW" "tB = real cb * tW" "0 < tW"
    using outer unfolding f by (simp_all add: const_acc_pos_def)
  have q: "tR / tW = real cr" "tG / tW = real cg" "tB / tW = real cb"
    using t by simp_all
  have "sampleAreaColor cfg cv scr
      = Inr \<lparr> color_r = Math_round (tR / tW), color_g = Math_round (tG / tW),
              color_b = Math_round (tB / tW) \<rparr>"
    by (simp add: sampleAreaColor_def a sr Let_def f)
  then show ?thesis by (simp add: q Math_round_of_nat)
qed

lemma sampling_rect_inner: "sampling_rect CONFIG inner_area = (57, 100, 4, 4)"
  by code_simp

lemma sampling_rect_edge: "sampling_rect CONFIG edge_area = (198, 100, 4, 4)"
  by code_simp

theorem sampleAreaColor_uniform_witness:
  "screen_area inner_screen = Some inner_area
   \<and> sampling_rect CONFIG inner_area = (57, 100, 4, 4)
   \<and> rect_in_canvas red_canvas (sampling_rect CONFIG inner_area)
   \<and> uniform_rect red_canvas (sampling_rect CONFIG inner_area) 255 0 0
   \<and> sampleAreaColor CONFIG red_canvas inner_screen
       = Inr \<lparr> color_r = 255, color_g = 0, color_b = 0 \<rparr>"
proof -
  have a: "screen_area inner_screen = Some inner_area"
    by (simp add: inner_screen_def)
  have i: "rect_in_canvas red_canvas (sampling_rect CONFIG inner_area)"
    by (simp only: sampling_rect_inner) (simp add: rect_in_canvas_def red_canvas_def)
  have u: "uniform_rect red_canvas (sampling_rect CONFIG inner_area) 255 0 0"
    by (simp only: sampling_rect_inner) (simp add: uniform_rect_def red_canvas_def)
  from sampleAreaColor_uniform [OF a i u] show ?thesis using a i u sampling_rect_inner by simp
qed

text \<open>
  C8 as stated fails when the sampling rectangle sticks out of the canvas: the bytes read
  outside are 0. On the all-red canvas, the area at x = 0.99 of width 0.02 gives the
  rectangle of columns 198..201 of a canvas 200 wide; half of the samples are black, the
  red channel of the result is at most 128, not 255.
\<close>

theorem sampleAreaColor_uniform_counterexample:
  "screen_area edge_screen = Some edge_area
   \<and> sampling_rect CONFIG edge_area = (198, 100, 4, 4)
   \<and> uniform_rect red_canvas (sampling_rect CONFIG edge_area) 255 0 0
   \<and> sampleAreaColor CONFIG red_canvas edge_screen
       \<noteq> Inr \<lparr> color_r = 255, color_g = 0, color_b = 0 \<rparr>"
proof -
  let ?n = "510 * exp (- (1 / 2)) + (765 * exp (- (5 / 4)) + (255 * exp (- 2)
              + (255 * exp (- 1) + 255 * exp (- (1 / 4))))) :: real"
  let ?d = "4 * exp (- (1 / 2)) + (4 * exp (- (1 / 4)) + (4 * exp (- (5 / 4))
              + (2 * exp (- 1) + (exp (- 2) + 1)))) :: real"
  have a: "screen_area edge_screen = Some edge_area" by (simp add: edge_screen_def)
  have u: "uniform_rect red_canvas (sampling_rect CONFIG edge_area) 255 0 0"
    by (simp only: sampling_rect_edge) (simp add: uniform_rect_def red_canvas_def)
  have e: "sampleAreaColor CONFIG red_canvas edge_screen
      = Inr \<lparr> color_r = Math_round (?n / ?d), color_g = Math_round 0, color_b = Math_round 0 \<rparr>"
    by (simp only: sampleAreaColor_def a option.case sampling_rect_edge)
       (simp add: Let_def red_canvas_def getImageData_def sample_step_def upt_conv_Cons)
  have m1: "exp (- (5 / 4)) \<le> exp (- (1 / 4) :: real)" by simp
  have m2: "exp (- 2) \<le> (1::real)" by simp
  have p: "0 < exp (- (1 / 2) :: real)" "0 < exp (- (5 / 4) :: real)" "0 < exp (- 2 :: real)"
    "0 < exp (- 1 :: real)" "0 < exp (- (1 / 4) :: real)" by simp_all
  have dpos: "0 < ?d" using p by linarith
  have lin: "b \<le> e \<Longrightarrow> c \<le> 1 \<Longrightarrow>
      2 * (510 * a + (765 * b + (255 * c + (255 * d + 255 * e))))
        \<le> 255 * (4 * a + (4 * e + (4 * b + (2 * d + (c + 1)))))" for a b c d e :: real
    by argo
  have "2 * ?n \<le> 255 * ?d" by (rule lin [OF m1 m2])
  then have "?n / ?d \<le> 255 / 2" using dpos by (simp add: pos_divide_le_eq)
  then have "Math_round (?n / ?d) \<le> 128" unfolding Math_round_def by linarith
  then have "Math_round (?n / ?d) \<noteq> 255" by linarith
  then show ?thesis using a u sampling_rect_edge unfolding e by simp
qed

section \<open>Scanning with nothing to scan\<close>

text \<open>
  C9, as the code has it. When \<open>startScan\<close> is invoked with no webcam stream or with zero
  registered screens it returns at once: no frame is captured, no message is emitted,
  nothing is logged and the state is unchanged.
\<close>

theorem startScan_guard:
  assumes "\<not> webcamStream st \<or> screens st = []"
  shows "startScan cfg camera st = Some (Inr (st, []))"
  using assms by (auto simp: startScan_def)

theorem startScan_guard_witness:
  "screens idle_controller = []
   \<and> startScan CONFIG still_camera idle_controller = Some (Inr (idle_controller, []))"
proof -
  have e: "screens idle_controller = []" by (simp add: idle_controller_def)
  then have "\<not> webcamStream idle_controller \<or> screens idle_controller = []" by simp
  from startScan_guard [OF this, of CONFIG still_camera] e show ?thesis by simp
qed

text \<open>
  C9 as stated fails in its last part: the scan with zero screens is not reported. The
  events of that call are the empty list, which holds no console message.
\<close>

theorem startScan_reports_counterexample:
  "startScan CONFIG still_camera idle_controller = Some (Inr (idle_controller, []))
   \<and> \<not> list_ex is_report
         (snd (projr (the (startScan CONFIG still_camera idle_controller))))"
  by (simp add: startScan_def idle_controller_def)


section \<open>The largest blob is the largest component\<close>

lemma px_index_less:
  assumes "in_image w h p"
  shows "px_index w p < w * h"
proof -
  obtain x y where p: "p = (x, y)" by (cases p)
  have b: "0 \<le> x" "x < int w" "0 \<le> y" "y < int h" using assms by (simp_all add: in_image_def p)
  have "y * int w + x < y * int w + int w" using b by simp
  also have "\<dots> = (y + 1) * int w" by (simp add: algebra_simps)
  also have "\<dots> \<le> int h * int w" using b by (intro mult_right_mono) simp_all
  finally have "y * int w + x < int (w * h)" by (simp add: mult.commute)
  moreover have "0 \<le> y * int w + x" using b by simp
  ultimately have "nat (y * int w + x) < w * h" by linarith
  then show ?thesis by (simp add: px_index_def p)
qed

lemma px_index_inj:
  assumes "in_image w h p" "in_image w h q" "px_index w p = px_index w q"
  shows "p = q"
proof -
  obtain x y where p: "p = (x, y)" by (cases p)
  obtain x' y' where q: "q = (x', y')" by (cases q)
  have b: "0 \<le> x" "x < int w" "0 \<le> y" "0 \<le> x'" "x' < int w" "0 \<le> y'"
    using assms by (simp_all add: in_image_def p q)
  have nn: "0 \<le> y * int w + x" "0 \<le> y' * int w + x'" using b by simp_all
  have e: "y * int w + x = y' * int w + x'"
    using assms(3) nn by (simp add: px_index_def p q)
  have "(y * int w + x) div int w = y" "(y' * int w + x') div int w = y'"
    using b by simp_all
  then have y: "y = y'" using e by simp
  then have "x = x'" using e by simp
  then show ?thesis using y by (simp add: p q)
qed

lemma px_index_nat: "px_index w (int x, int y) = y * w + x"
  by (simp add: px_index_def nat_add_distrib nat_mult_distrib)

lemma in_image_nat: "in_image w h (int x, int y) \<longleftrightarrow> x < w \<and> y < h"
  by (simp add: in_image_def)

lemma in_image_cases:
  assumes "in_image w h p"
  obtains x y where "p = (int x, int y)" "x < w" "y < h"
proof -
  obtain a b where p: "p = (a, b)" by (cases p)
  have "p = (int (nat a), int (nat b))" "nat a < w" "nat b < h"
    using assms by (auto simp: in_image_def p)
  then show ?thesis by (rule that)
qed

lemma adjacent4_sym: "adjacent4 p q \<Longrightarrow> adjacent4 q p"
  by (cases p; cases q) (auto simp: adjacent4_def directions_def)

lemma lit_edges_sym: "(p, q) \<in> lit_edges msk w h \<Longrightarrow> (q, p) \<in> lit_edges msk w h"
  by (auto simp: lit_edges_def adjacent4_sym)

lemma lit_path_sym:
  "(p, q) \<in> (lit_edges msk w h)\<^sup>* \<Longrightarrow> (q, p) \<in> (lit_edges msk w h)\<^sup>*"
  by (induction rule: rtrancl_induct)
     (auto intro: converse_rtrancl_into_rtrancl lit_edges_sym)

lemma component_refl: "p \<in> component msk w h p"
  by (simp add: component_def)

lemma component_sym: "q \<in> component msk w h p \<Longrightarrow> p \<in> component msk w h q"
  by (simp add: component_def lit_path_sym)

lemma component_trans:
  "q \<in> component msk w h p \<Longrightarrow> r \<in> component msk w h q \<Longrightarrow> r \<in> component msk w h p"
  by (auto simp: component_def)

lemma component_eq: "q \<in> component msk w h p \<Longrightarrow> component msk w h q = component msk w h p"
  by (auto intro: component_trans component_sym)

lemma component_lit:
  assumes "lit msk w h p" "q \<in> component msk w h p"
  shows "lit msk w h q"
proof -
  have "(p, q) \<in> (lit_edges msk w h)\<^sup>*" using assms(2) by (simp add: component_def)
  then show ?thesis using assms(1)
    by (induction rule: rtrancl_induct) (auto simp: lit_edges_def)
qed

lemma component_step:
  "q \<in> component msk w h p \<Longrightarrow> lit msk w h q \<Longrightarrow> lit msk w h r \<Longrightarrow> adjacent4 q r
     \<Longrightarrow> r \<in> component msk w h p"
  by (auto simp: component_def lit_edges_def intro: rtrancl_into_rtrancl)

lemma finite_in_image: "finite {p. in_image w h p}"
proof -
  have "{p. in_image w h p} \<subseteq> {0..<int w} \<times> {0..<int h}"
    by (auto simp: in_image_def)
  then show ?thesis by (rule finite_subset) simp
qed

lemma finite_component:
  assumes "lit msk w h p"
  shows "finite (component msk w h p)"
proof -
  have "component msk w h p \<subseteq> {q. in_image w h q}"
    using component_lit [OF assms] by (auto simp: lit_def)
  then show ?thesis by (rule finite_subset) (rule finite_in_image)
qed

lemma closed_contains_component:
  assumes s: "s \<in> A"
    and closed: "\<And>p q. p \<in> A \<Longrightarrow> (p, q) \<in> lit_edges msk w h \<Longrightarrow> q \<in> A"
  shows "component msk w h s \<subseteq> A"
proof
  fix q assume "q \<in> component msk w h s"
  then have "(s, q) \<in> (lit_edges msk w h)\<^sup>*" by (simp add: component_def)
  then show "q \<in> A" using s closed by (induction rule: rtrancl_induct) auto
qed

lemma ff_midD:
  assumes "ff_mid msk w h s V0 pixels p ds (visited, queue)"
  shows "length visited = w * h"
    and "distinct (pixels @ p # queue)"
    and "\<forall>q \<in> set (pixels @ p # queue).
            lit msk w h q \<and> q \<in> component msk w h s \<and> \<not> vis V0 w h q"
    and "\<forall>q. vis visited w h q \<longleftrightarrow> vis V0 w h q \<or> q \<in> set (pixels @ p # queue)"
    and "s \<in> set (pixels @ p # queue)"
    and "\<forall>p' \<in> set pixels. \<forall>q. lit msk w h q \<and> adjacent4 p' q \<longrightarrow> vis visited w h q"
    and "\<forall>d \<in> set ds. lit msk w h (step_to p d) \<longrightarrow> vis visited w h (step_to p d)"
  using assms unfolding ff_mid_def prod.case by blast+

lemma ff_midI:
  assumes "length visited = w * h"
    and "distinct (pixels @ p # queue)"
    and "\<forall>q \<in> set (pixels @ p # queue).
            lit msk w h q \<and> q \<in> component msk w h s \<and> \<not> vis V0 w h q"
    and "\<forall>q. vis visited w h q \<longleftrightarrow> vis V0 w h q \<or> q \<in> set (pixels @ p # queue)"
    and "s \<in> set (pixels @ p # queue)"
    and "\<forall>p' \<in> set pixels. \<forall>q. lit msk w h q \<and> adjacent4 p' q \<longrightarrow> vis visited w h q"
    and "\<forall>d \<in> set ds. lit msk w h (step_to p d) \<longrightarrow> vis visited w h (step_to p d)"
  shows "ff_mid msk w h s V0 pixels p ds (visited, queue)"
  using assms unfolding ff_mid_def prod.case by blast

lemma ff_invD:
  assumes "ff_inv msk w h s V0 (queue, pixels, visited)"
  shows "length visited = w * h"
    and "distinct (pixels @ queue)"
    and "\<forall>q \<in> set (pixels @ queue).
            lit msk w h q \<and> q \<in> component msk w h s \<and> \<not> vis V0 w h q"
    and "\<forall>q. vis visited w h q \<longleftrightarrow> vis V0 w h q \<or> q \<in> set (pixels @ queue)"
    and "s \<in> set (pixels @ queue)"
    and "\<forall>p' \<in> set pixels. \<forall>q. lit msk w h q \<and> adjacent4 p' q \<longrightarrow> vis visited w h q"
  using assms unfolding ff_inv_def prod.case by blast+

lemma ff_invI:
  assumes "length visited = w * h"
    and "distinct (pixels @ queue)"
    and "\<forall>q \<in> set (pixels @ queue).
            lit msk w h q \<and> q \<in> component msk w h s \<and> \<not> vis V0 w h q"
    and "\<forall>q. vis visited w h q \<longleftrightarrow> vis V0 w h q \<or> q \<in> set (pixels @ queue)"
    and "s \<in> set (pixels @ queue)"
    and "\<forall>p' \<in> set pixels. \<forall>q. lit msk w h q \<and> adjacent4 p' q \<longrightarrow> vis visited w h q"
  shows "ff_inv msk w h s V0 (queue, pixels, visited)"
  using assms unfolding ff_inv_def prod.case by blast

lemma ff_visit_alt:
  "ff_visit msk w h p d (visited, queue) =
     (if lit msk w h (step_to p d) \<and> \<not> vis visited w h (step_to p d)
      then (visited[px_index w (step_to p d) := 1], queue @ [step_to p d])
      else (visited, queue))"
  by (auto simp: ff_visit_def Let_def lit_def vis_def in_image_def px_index_def step_to_def)

lemma vis_update:
  assumes "length visited = w * h" "in_image w h q"
  shows "vis (visited[px_index w q := 1]) w h r \<longleftrightarrow> vis visited w h r \<or> r = q"
proof (cases "r = q")
  case True
  then show ?thesis
    using assms px_index_less [OF assms(2)] by (simp add: vis_def not_visited_def)
next
  case False
  show ?thesis
  proof (cases "in_image w h r")
    case True
    then have "px_index w r \<noteq> px_index w q" using px_index_inj assms(2) False by blast
    then show ?thesis using False by (simp add: vis_def not_visited_def)
  next
    case False
    then show ?thesis using \<open>r \<noteq> q\<close> by (simp add: vis_def)
  qed
qed

lemma adjacent4_step: "d \<in> set directions \<Longrightarrow> adjacent4 p (step_to p d)"
  by (auto simp: adjacent4_def step_to_def)

lemma adjacent4_iff: "adjacent4 p q \<longleftrightarrow> (\<exists>d \<in> set directions. q = step_to p d)"
  by (simp add: adjacent4_def step_to_def)

lemma ff_mid_step:
  assumes m: "ff_mid msk w h s V0 pixels p ds st" and d: "d \<in> set directions"
  shows "ff_mid msk w h s V0 pixels p (ds @ [d]) (ff_visit msk w h p d st)"
proof -
  obtain visited queue where st: "st = (visited, queue)" by (cases st)
  let ?q = "step_to p d"
  have len: "length visited = w * h"
    and dist: "distinct (pixels @ p # queue)"
    and elems: "\<forall>q \<in> set (pixels @ p # queue).
            lit msk w h q \<and> q \<in> component msk w h s \<and> \<not> vis V0 w h q"
    and char: "\<forall>q. vis visited w h q \<longleftrightarrow> vis V0 w h q \<or> q \<in> set (pixels @ p # queue)"
    and start: "s \<in> set (pixels @ p # queue)"
    and closed: "\<forall>p' \<in> set pixels. \<forall>q. lit msk w h q \<and> adjacent4 p' q \<longrightarrow> vis visited w h q"
    and dirs: "\<forall>d \<in> set ds. lit msk w h (step_to p d) \<longrightarrow> vis visited w h (step_to p d)"
    using ff_midD [OF m [unfolded st]] by blast+
  show ?thesis
  proof (cases "lit msk w h ?q \<and> \<not> vis visited w h ?q")
    case False
    then have e: "ff_visit msk w h p d (visited, queue) = (visited, queue)"
      by (simp add: ff_visit_alt)
    have d7: "\<forall>d' \<in> set (ds @ [d]). lit msk w h (step_to p d') \<longrightarrow> vis visited w h (step_to p d')"
      using dirs False by auto
    show ?thesis
      unfolding st e by (intro ff_midI len dist elems char start closed d7)
  next
    case True
    then have litq: "lit msk w h ?q" and nv: "\<not> vis visited w h ?q" by simp_all
    have imq: "in_image w h ?q" using litq by (simp add: lit_def)
    let ?v = "visited[px_index w ?q := 1]"
    have e: "ff_visit msk w h p d (visited, queue) = (?v, queue @ [?q])"
      using True by (simp add: ff_visit_alt)
    have vu: "\<And>r. vis ?v w h r \<longleftrightarrow> vis visited w h r \<or> r = ?q"
      by (rule vis_update [OF len imq])
    have fresh: "?q \<notin> set (pixels @ p # queue)" and nv0: "\<not> vis V0 w h ?q"
      using nv char by blast+
    have plit: "lit msk w h p" and pcomp: "p \<in> component msk w h s"
      using elems by simp_all
    have qcomp: "?q \<in> component msk w h s"
      by (rule component_step [OF pcomp plit litq adjacent4_step [OF d]])
    have 1: "length ?v = w * h" using len by simp
    have 2: "distinct (pixels @ p # (queue @ [?q]))" using dist fresh by auto
    have 3: "\<forall>q \<in> set (pixels @ p # (queue @ [?q])).
            lit msk w h q \<and> q \<in> component msk w h s \<and> \<not> vis V0 w h q"
      using elems litq qcomp nv0 by auto
    have 4: "\<forall>q. vis ?v w h q \<longleftrightarrow> vis V0 w h q \<or> q \<in> set (pixels @ p # (queue @ [?q]))"
      using char vu by auto
    have 5: "s \<in> set (pixels @ p # (queue @ [?q]))" using start by auto
    have 6: "\<forall>p' \<in> set pixels. \<forall>q. lit msk w h q \<and> adjacent4 p' q \<longrightarrow> vis ?v w h q"
      using closed vu by blast
    have 7: "\<forall>d' \<in> set (ds @ [d]). lit msk w h (step_to p d') \<longrightarrow> vis ?v w h (step_to p d')"
      using dirs vu by auto
    show ?thesis unfolding st e by (intro ff_midI 1 2 3 4 5 6 7)
  qed
qed

lemma fold_prefix_invariant:
  assumes "I [] s" and "\<And>pre x s. x \<in> set xs \<Longrightarrow> I pre s \<Longrightarrow> I (pre @ [x]) (g x s)"
  shows "I xs (fold g xs s)"
proof -
  have "set ys \<subseteq> set xs \<Longrightarrow> I ys (fold g ys s)" for ys
  proof (induction ys rule: rev_induct)
    case Nil
    show ?case using assms(1) by simp
  next
    case (snoc y ys)
    then show ?case using assms(2) [of y ys "fold g ys s"] by simp
  qed
  then show ?thesis by simp
qed

lemma ff_mid_directions:
  assumes "ff_mid msk w h s V0 pixels p [] st"
  shows "ff_mid msk w h s V0 pixels p directions (fold (ff_visit msk w h p) directions st)"
  by (rule fold_prefix_invariant [where I = "ff_mid msk w h s V0 pixels p"], rule assms)
     (rule ff_mid_step)

lemma ff_inv_step:
  assumes inv: "ff_inv msk w h s V0 (p # rest, pixels, visited)"
  shows "ff_inv msk w h s V0 (ff_step msk w h (p # rest, pixels, visited))"
proof -
  note i = ff_invD [OF inv]
  have m0: "ff_mid msk w h s V0 pixels p [] (visited, rest)"
  proof (intro ff_midI)
    show "length visited = w * h" by (rule i(1))
    show "distinct (pixels @ p # rest)" by (rule i(2))
    show "\<forall>q \<in> set (pixels @ p # rest).
            lit msk w h q \<and> q \<in> component msk w h s \<and> \<not> vis V0 w h q" by (rule i(3))
    show "\<forall>q. vis visited w h q \<longleftrightarrow> vis V0 w h q \<or> q \<in> set (pixels @ p # rest)" by (rule i(4))
    show "s \<in> set (pixels @ p # rest)" by (rule i(5))
    show "\<forall>p' \<in> set pixels. \<forall>q. lit msk w h q \<and> adjacent4 p' q \<longrightarrow> vis visited w h q"
      by (rule i(6))
    show "\<forall>d \<in> set []. lit msk w h (step_to p d) \<longrightarrow> vis visited w h (step_to p d)" by simp
  qed
  obtain visited' queue' where f: "fold (ff_visit msk w h p) directions (visited, rest) = (visited', queue')"
    by (cases "fold (ff_visit msk w h p) directions (visited, rest)")
  have m: "ff_mid msk w h s V0 pixels p directions (visited', queue')"
    using ff_mid_directions [OF m0] unfolding f .
  note j = ff_midD [OF m]
  have e: "ff_step msk w h (p # rest, pixels, visited) = (queue', pixels @ [p], visited')"
    by (simp add: ff_step_def f)
  have closed_p: "\<forall>q. lit msk w h q \<and> adjacent4 p q \<longrightarrow> vis visited' w h q"
    using j(7) unfolding adjacent4_iff by blast
  show ?thesis unfolding e
  proof (intro ff_invI)
    show "length visited' = w * h" by (rule j(1))
    show "distinct ((pixels @ [p]) @ queue')" using j(2) by simp
    show "\<forall>q \<in> set ((pixels @ [p]) @ queue').
            lit msk w h q \<and> q \<in> component msk w h s \<and> \<not> vis V0 w h q" using j(3) by simp
    show "\<forall>q. vis visited' w h q \<longleftrightarrow> vis V0 w h q \<or> q \<in> set ((pixels @ [p]) @ queue')"
      using j(4) by simp
    show "s \<in> set ((pixels @ [p]) @ queue')" using j(5) by simp
    show "\<forall>p' \<in> set (pixels @ [p]). \<forall>q. lit msk w h q \<and> adjacent4 p' q \<longrightarrow> vis visited' w h q"
      using j(6) closed_p by simp
  qed
qed

lemma zeros_update:
  "i < length v \<Longrightarrow> v ! i = 0 \<Longrightarrow> Suc (zeros (v[i := 1])) = zeros v"
proof (induction v arbitrary: i)
  case Nil
  then show ?case by simp
next
  case (Cons a v)
  show ?case
  proof (cases i)
    case 0
    then show ?thesis using Cons.prems by (simp add: zeros_def)
  next
    case (Suc j)
    then have "Suc (zeros (v[j := 1])) = zeros v" using Cons by simp
    then show ?thesis using Suc by (simp add: zeros_def)
  qed
qed

lemma ff_visit_measure:
  assumes "length visited = w * h"
  shows "length (fst (ff_visit msk w h p d (visited, queue))) = w * h
       \<and> 2 * zeros (fst (ff_visit msk w h p d (visited, queue)))
           + length (snd (ff_visit msk w h p d (visited, queue)))
         \<le> 2 * zeros visited + length queue"
proof (cases "lit msk w h (step_to p d) \<and> \<not> vis visited w h (step_to p d)")
  case False
  have "ff_visit msk w h p d (visited, queue) = (visited, queue)"
    unfolding ff_visit_alt by (rule if_not_P [OF False])
  then show ?thesis using assms by simp
next
  case True
  let ?q = "step_to p d"
  have im: "in_image w h ?q" using True by (simp add: lit_def)
  have lt: "px_index w ?q < length visited" using px_index_less [OF im] assms by simp
  have z: "visited ! px_index w ?q = 0"
    using True im lt by (simp add: vis_def not_visited_def)
  have "Suc (zeros (visited[px_index w ?q := 1])) = zeros visited"
    by (rule zeros_update [OF lt z])
  moreover have "ff_visit msk w h p d (visited, queue)
      = (visited[px_index w ?q := 1], queue @ [?q])"
    unfolding ff_visit_alt by (rule if_P [OF True])
  ultimately show ?thesis using assms by simp
qed

lemma ff_visit_fold_measure:
  assumes "length visited = w * h"
  shows "2 * zeros (fst (fold (ff_visit msk w h p) ds (visited, queue)))
           + length (snd (fold (ff_visit msk w h p) ds (visited, queue)))
         \<le> 2 * zeros visited + length queue"
proof -
  let ?P = "\<lambda>st :: nat list \<times> pixel list. length (fst st) = w * h
        \<and> 2 * zeros (fst st) + length (snd st) \<le> 2 * zeros visited + length queue"
  have "?P (fold (ff_visit msk w h p) ds (visited, queue))"
  proof (rule fold_invariant [where P = ?P])
    show "?P (visited, queue)" using assms by simp
  next
    fix d st assume st: "?P st"
    obtain v q where e: "st = (v, q)" by (cases st)
    have "length v = w * h" using st e by simp
    from ff_visit_measure [OF this, of msk p d q] st
    show "?P (ff_visit msk w h p d st)" unfolding e by simp
  qed
  then show ?thesis by simp
qed

lemma ff_step_measure:
  assumes "length visited = w * h"
  shows "ff_measure (ff_step msk w h (p # rest, pixels, visited))
       < ff_measure (p # rest, pixels, visited)"
proof -
  obtain v q where f: "fold (ff_visit msk w h p) directions (visited, rest) = (v, q)"
    by (cases "fold (ff_visit msk w h p) directions (visited, rest)")
  have "2 * zeros v + length q \<le> 2 * zeros visited + length rest"
    using ff_visit_fold_measure [OF assms, of msk p directions rest] unfolding f by simp
  then show ?thesis by (simp add: ff_step_def f ff_measure_def)
qed

lemma floodFill_loop_total:
  assumes "ff_inv msk w h s V0 st"
  shows "\<exists>r. floodFill_loop msk w h st = Some r \<and> ff_inv msk w h s V0 r \<and> fst r = []"
  using assms
proof (induction st rule: measure_induct_rule [where f = ff_measure])
  case (less st)
  obtain queue pixels visited where st: "st = (queue, pixels, visited)" by (cases st)
  show ?case
  proof (cases queue)
    case Nil
    then have "floodFill_loop msk w h st = Some st"
      by (subst floodFill_loop.simps) (simp add: st)
    then show ?thesis using less.prems Nil st by simp
  next
    case (Cons p rest)
    have len: "length visited = w * h" using ff_invD(1) [OF less.prems [unfolded st]] .
    have dec: "ff_measure (ff_step msk w h st) < ff_measure st"
      unfolding st Cons by (rule ff_step_measure [OF len])
    have inv: "ff_inv msk w h s V0 (ff_step msk w h st)"
      using less.prems unfolding st Cons by (rule ff_inv_step)
    have "floodFill_loop msk w h st = floodFill_loop msk w h (ff_step msk w h st)"
      by (subst floodFill_loop.simps) (simp add: st Cons)
    then show ?thesis using less.IH [OF dec inv] by simp
  qed
qed

lemma floodFill_component:
  assumes len: "length V0 = w * h" and lit_s: "lit msk w h s"
    and fresh: "\<forall>q \<in> component msk w h s. \<not> vis V0 w h q"
  shows "\<exists>pixels visited'. floodFill msk V0 w h (fst s) (snd s) = Some (pixels, visited')
           \<and> distinct pixels \<and> set pixels = component msk w h s
           \<and> length visited' = w * h
           \<and> (\<forall>q. vis visited' w h q \<longleftrightarrow> vis V0 w h q \<or> q \<in> component msk w h s)"
proof -
  have im: "in_image w h s" using lit_s by (simp add: lit_def)
  let ?v1 = "V0[px_index w s := 1]"
  have init: "ff_inv msk w h s V0 ([s], [], ?v1)"
  proof (intro ff_invI)
    show "length ?v1 = w * h" using len by simp
    show "distinct ([] @ [s])" by simp
    show "\<forall>q \<in> set ([] @ [s]). lit msk w h q \<and> q \<in> component msk w h s \<and> \<not> vis V0 w h q"
      using lit_s fresh component_refl by simp
    show "\<forall>q. vis ?v1 w h q \<longleftrightarrow> vis V0 w h q \<or> q \<in> set ([] @ [s])"
      using vis_update [OF len im] by simp
    show "s \<in> set ([] @ [s])" by simp
    show "\<forall>p' \<in> set []. \<forall>q. lit msk w h q \<and> adjacent4 p' q \<longrightarrow> vis ?v1 w h q" by simp
  qed
  obtain r where r: "floodFill_loop msk w h ([s], [], ?v1) = Some r"
    and rinv: "ff_inv msk w h s V0 r" and rq: "fst r = []"
    using floodFill_loop_total [OF init] by blast
  obtain pixels visited' where re: "r = ([], pixels, visited')" using rq by (cases r) auto
  note i = ff_invD [OF rinv [unfolded re]]
  have sub: "set pixels \<subseteq> component msk w h s" using i(3) by auto
  have sup: "component msk w h s \<subseteq> set pixels"
  proof (rule closed_contains_component)
    show "s \<in> set pixels" using i(5) by simp
  next
    fix p q assume p: "p \<in> set pixels" and e: "(p, q) \<in> lit_edges msk w h"
    have lq: "lit msk w h q" and lp: "lit msk w h p" and adj: "adjacent4 p q"
      using e by (simp_all add: lit_edges_def)
    have "vis visited' w h q" using i(6) p lq adj by blast
    then have "vis V0 w h q \<or> q \<in> set pixels" using i(4) by simp
    moreover have "q \<in> component msk w h s"
      using sub p by (intro component_step [OF _ lp lq adj]) auto
    ultimately show "q \<in> set pixels" using fresh by blast
  qed
  have eq: "set pixels = component msk w h s" using sub sup by blast
  have "floodFill msk V0 w h (fst s) (snd s) = Some (pixels, visited')"
    using r by (simp add: floodFill_def px_index_def re)
  moreover have "\<forall>q. vis visited' w h q \<longleftrightarrow> vis V0 w h q \<or> q \<in> component msk w h s"
    using i(4) eq by simp
  ultimately show ?thesis using i(1) i(2) eq by auto
qed

lemma fb_invI:
  assumes "length visited = w * h"
    and "\<forall>p. vis visited w h p \<longrightarrow>
               lit msk w h p \<and> (\<forall>q \<in> component msk w h p. vis visited w h q)"
    and "\<forall>p. lit msk w h p \<and> px_index w p < k \<longrightarrow> vis visited w h p"
    and "\<forall>p. vis visited w h p \<longrightarrow> card (component msk w h p) \<le> largestSize"
    and "blob_ok msk w h visited largestBlob largestSize"
  shows "fb_inv msk w h k (Some (visited, largestBlob, largestSize))"
  using assms unfolding fb_inv_def by blast

lemma fb_invE:
  assumes "fb_inv msk w h k st"
  obtains visited largestBlob largestSize where
    "st = Some (visited, largestBlob, largestSize)"
    "length visited = w * h"
    "\<forall>p. vis visited w h p \<longrightarrow>
               lit msk w h p \<and> (\<forall>q \<in> component msk w h p. vis visited w h q)"
    "\<forall>p. lit msk w h p \<and> px_index w p < k \<longrightarrow> vis visited w h p"
    "\<forall>p. vis visited w h p \<longrightarrow> card (component msk w h p) \<le> largestSize"
    "blob_ok msk w h visited largestBlob largestSize"
  using assms unfolding fb_inv_def by blast

lemma fb_visit_step:
  assumes x: "x < w" and y: "y < h" and inv: "fb_inv msk w h (y * w + x) st"
  shows "fb_inv msk w h (Suc (y * w + x)) (fb_visit msk w h y x st)"
proof -
  obtain visited lb ls where st: "st = Some (visited, lb, ls)"
    and len: "length visited = w * h"
    and union: "\<forall>p. vis visited w h p \<longrightarrow>
               lit msk w h p \<and> (\<forall>q \<in> component msk w h p. vis visited w h q)"
    and seen: "\<forall>p. lit msk w h p \<and> px_index w p < y * w + x \<longrightarrow> vis visited w h p"
    and sizes: "\<forall>p. vis visited w h p \<longrightarrow> card (component msk w h p) \<le> ls"
    and bok: "blob_ok msk w h visited lb ls"
    using inv by (rule fb_invE)
  let ?s = "(int x, int y)"
  have im: "in_image w h ?s" using x y by (simp add: in_image_nat)
  have idx: "px_index w ?s = y * w + x" by (rule px_index_nat)
  have cond: "mask_lit msk (y * w + x) \<and> not_visited visited (y * w + x)
      \<longleftrightarrow> lit msk w h ?s \<and> \<not> vis visited w h ?s"
    using im by (simp add: lit_def vis_def idx)
  have at_k: "\<And>p. lit msk w h p \<Longrightarrow> px_index w p = y * w + x \<Longrightarrow> p = ?s"
  proof -
    fix p assume "lit msk w h p" and e: "px_index w p = y * w + x"
    then have "in_image w h p" by (simp add: lit_def)
    then show "p = ?s" using px_index_inj [OF _ im] e idx by simp
  qed
  have alt: "fb_visit msk w h y x st =
      (if lit msk w h ?s \<and> \<not> vis visited w h ?s
       then (case floodFill msk visited w h (int x) (int y) of
               None \<Rightarrow> None
             | Some (pixels, visited') \<Rightarrow>
                 if length pixels > ls
                 then Some (visited', Some \<lparr> blob_pixels = pixels \<rparr>, length pixels)
                 else Some (visited', lb, ls))
       else st)"
    unfolding fb_visit_def st Let_def cond [symmetric] by simp
  show ?thesis
  proof (cases "lit msk w h ?s \<and> \<not> vis visited w h ?s")
    case False
    have e: "fb_visit msk w h y x st = Some (visited, lb, ls)"
      unfolding alt if_not_P [OF False] by (rule st)
    have seen': "\<forall>p. lit msk w h p \<and> px_index w p < Suc (y * w + x) \<longrightarrow> vis visited w h p"
    proof (intro allI impI)
      fix p assume p: "lit msk w h p \<and> px_index w p < Suc (y * w + x)"
      show "vis visited w h p"
      proof (cases "px_index w p = y * w + x")
        case True
        then have "p = ?s" using at_k p by blast
        then show ?thesis using False p by blast
      next
        case False
        then have "px_index w p < y * w + x" using p by simp
        then show ?thesis using seen p by blast
      qed
    qed
    show ?thesis unfolding e by (intro fb_invI len union seen' sizes bok)
  next
    case True
    then have lit_s: "lit msk w h ?s" and nv: "\<not> vis visited w h ?s" by simp_all
    have fresh: "\<forall>q \<in> component msk w h ?s. \<not> vis visited w h q"
    proof
      fix q assume q: "q \<in> component msk w h ?s"
      show "\<not> vis visited w h q"
      proof
        assume "vis visited w h q"
        then have "\<forall>r \<in> component msk w h q. vis visited w h r" using union by blast
        moreover have "?s \<in> component msk w h q" using q by (rule component_sym)
        ultimately show False using nv by blast
      qed
    qed
    obtain pixels visited' where
      ff: "floodFill msk visited w h (int x) (int y) = Some (pixels, visited')"
      and dist: "distinct pixels" and comp: "set pixels = component msk w h ?s"
      and len': "length visited' = w * h"
      and char: "\<forall>q. vis visited' w h q \<longleftrightarrow> vis visited w h q \<or> q \<in> component msk w h ?s"
      using floodFill_component [OF len lit_s fresh] by auto
    have card_s: "card (component msk w h ?s) = length pixels"
      using dist comp distinct_card by metis
    have pos: "0 < length pixels"
      using comp component_refl [of ?s msk w h] by (cases pixels) auto
    have union': "\<forall>p. vis visited' w h p \<longrightarrow>
               lit msk w h p \<and> (\<forall>q \<in> component msk w h p. vis visited' w h q)"
    proof (intro allI impI)
      fix p assume "vis visited' w h p"
      then consider "vis visited w h p" | "p \<in> component msk w h ?s" using char by blast
      then show "lit msk w h p \<and> (\<forall>q \<in> component msk w h p. vis visited' w h q)"
      proof cases
        case 1
        then show ?thesis using union char by blast
      next
        case 2
        then have ce: "component msk w h p = component msk w h ?s" by (rule component_eq)
        have "\<forall>q \<in> component msk w h p. vis visited' w h q" unfolding ce using char by blast
        then show ?thesis using component_lit [OF lit_s 2] by blast
      qed
    qed
    have seen': "\<forall>p. lit msk w h p \<and> px_index w p < Suc (y * w + x) \<longrightarrow> vis visited' w h p"
    proof (intro allI impI)
      fix p assume p: "lit msk w h p \<and> px_index w p < Suc (y * w + x)"
      show "vis visited' w h p"
      proof (cases "px_index w p = y * w + x")
        case True
        then have "p = ?s" using at_k p by blast
        then show ?thesis using char component_refl by blast
      next
        case False
        then have "px_index w p < y * w + x" using p by simp
        then have "vis visited w h p" using seen p by blast
        then show ?thesis using char by blast
      qed
    qed
    have sizes_max: "\<forall>p. vis visited' w h p \<longrightarrow>
        card (component msk w h p) \<le> max ls (length pixels)"
    proof (intro allI impI)
      fix p assume "vis visited' w h p"
      then consider "vis visited w h p" | "p \<in> component msk w h ?s" using char by blast
      then show "card (component msk w h p) \<le> max ls (length pixels)"
      proof cases
        case 1
        then have "card (component msk w h p) \<le> ls" using sizes by blast
        then show ?thesis by simp
      next
        case 2
        then have "component msk w h p = component msk w h ?s" by (rule component_eq)
        then show ?thesis using card_s by simp
      qed
    qed
    show ?thesis
    proof (cases "length pixels > ls")
      case True
      have e: "fb_visit msk w h y x st
          = Some (visited', Some \<lparr> blob_pixels = pixels \<rparr>, length pixels)"
        unfolding alt if_P [OF \<open>lit msk w h ?s \<and> \<not> vis visited w h ?s\<close>] ff
        using True by simp
      have sz: "\<forall>p. vis visited' w h p \<longrightarrow> card (component msk w h p) \<le> length pixels"
        using sizes_max True by (simp add: max_def)
      have bok': "blob_ok msk w h visited' (Some \<lparr> blob_pixels = pixels \<rparr>) (length pixels)"
        using dist comp lit_s by (auto simp: blob_ok_def)
      show ?thesis unfolding e by (intro fb_invI len' union' seen' sz bok')
    next
      case False
      have e: "fb_visit msk w h y x st = Some (visited', lb, ls)"
        unfolding alt if_P [OF \<open>lit msk w h ?s \<and> \<not> vis visited w h ?s\<close>] ff
        using False by simp
      have sz: "\<forall>p. vis visited' w h p \<longrightarrow> card (component msk w h p) \<le> ls"
        using sizes_max False by (simp add: max_def)
      have "lb \<noteq> None" using bok False pos by (cases lb) (simp_all add: blob_ok_def)
      then have bok': "blob_ok msk w h visited' lb ls"
        using bok by (cases lb) (simp_all add: blob_ok_def)
      show ?thesis unfolding e by (intro fb_invI len' union' seen' sz bok')
    qed
  qed
qed

lemma fold_upt_invariant:
  assumes "I 0 s" and "\<And>k s. k < n \<Longrightarrow> I k s \<Longrightarrow> I (Suc k) (f k s)"
  shows "I n (fold f [0..<n] s)"
  using assms(2)
proof (induction n)
  case 0
  show ?case using assms(1) by simp
next
  case (Suc n)
  have "I n (fold f [0..<n] s)" using Suc by simp
  then have "I (Suc n) (f n (fold f [0..<n] s))" using Suc.prems by simp
  then show ?case by simp
qed

lemma fb_row:
  assumes y: "y < h" and inv: "fb_inv msk w h (y * w) st"
  shows "fb_inv msk w h (Suc y * w) (fold (fb_visit msk w h y) [0..<w] st)"
proof -
  have "fb_inv msk w h (y * w + w) (fold (fb_visit msk w h y) [0..<w] st)"
  proof (rule fold_upt_invariant [where I = "\<lambda>x. fb_inv msk w h (y * w + x)"])
    show "fb_inv msk w h (y * w + 0) st" using inv by simp
  next
    fix x s assume "x < w" "fb_inv msk w h (y * w + x) s"
    then show "fb_inv msk w h (y * w + Suc x) (fb_visit msk w h y x s)"
      using fb_visit_step [OF _ y] by simp
  qed
  then show ?thesis by (simp add: add.commute)
qed

lemma fb_all:
  "fb_inv msk w h (h * w)
     (fold (\<lambda>y st. fold (fb_visit msk w h y) [0..<w] st) [0..<h]
        (Some (replicate (w * h) 0, None, 0)))"
proof (rule fold_upt_invariant [where I = "\<lambda>y. fb_inv msk w h (y * w)"])
  have nv: "\<And>p. \<not> vis (replicate (w * h) 0) w h p"
    using px_index_less by (auto simp: vis_def not_visited_def)
  show "fb_inv msk w h (0 * w) (Some (replicate (w * h) 0, None, 0))"
    using nv by (intro fb_invI) (simp_all add: blob_ok_def)
next
  fix y s assume "y < h" "fb_inv msk w h (y * w) s"
  then show "fb_inv msk w h (Suc y * w) (fold (fb_visit msk w h y) [0..<w] s)"
    by (rule fb_row)
qed

lemma findLargestBlob_spec:
  "\<exists>res. findLargestBlob msk w h = Some res
     \<and> (res = None \<longleftrightarrow> (\<forall>p. \<not> lit msk w h p))
     \<and> (\<forall>b. res = Some b \<longrightarrow>
           distinct (blob_pixels b)
           \<and> (\<exists>s. lit msk w h s \<and> set (blob_pixels b) = component msk w h s)
           \<and> (\<forall>q. lit msk w h q \<longrightarrow> card (component msk w h q) \<le> length (blob_pixels b)))"
proof -
  obtain visited lb ls where
    f: "fold (\<lambda>y st. fold (fb_visit msk w h y) [0..<w] st) [0..<h]
        (Some (replicate (w * h) 0, None, 0)) = Some (visited, lb, ls)"
    and union: "\<forall>p. vis visited w h p \<longrightarrow>
               lit msk w h p \<and> (\<forall>q \<in> component msk w h p. vis visited w h q)"
    and seen: "\<forall>p. lit msk w h p \<and> px_index w p < h * w \<longrightarrow> vis visited w h p"
    and sizes: "\<forall>p. vis visited w h p \<longrightarrow> card (component msk w h p) \<le> ls"
    and bok: "blob_ok msk w h visited lb ls"
    using fb_all [of msk w h] by (rule fb_invE)
  have all_seen: "\<And>p. lit msk w h p \<Longrightarrow> vis visited w h p"
  proof -
    fix p assume p: "lit msk w h p"
    then have "px_index w p < h * w" using px_index_less [of w h p] by (simp add: lit_def mult.commute)
    then show "vis visited w h p" using seen p by blast
  qed
  have r: "findLargestBlob msk w h = Some lb" by (simp add: findLargestBlob_def f)
  have none: "lb = None \<longleftrightarrow> (\<forall>p. \<not> lit msk w h p)"
  proof (cases lb)
    case None
    then show ?thesis using bok all_seen by (auto simp: blob_ok_def)
  next
    case (Some b)
    then show ?thesis using bok by (auto simp: blob_ok_def)
  qed
  have some: "\<forall>b. lb = Some b \<longrightarrow>
           distinct (blob_pixels b)
           \<and> (\<exists>s. lit msk w h s \<and> set (blob_pixels b) = component msk w h s)
           \<and> (\<forall>q. lit msk w h q \<longrightarrow> card (component msk w h q) \<le> length (blob_pixels b))"
  proof (intro allI impI)
    fix b assume b: "lb = Some b"
    then have ls: "ls = length (blob_pixels b)" and d: "distinct (blob_pixels b)"
      and s: "\<exists>s. lit msk w h s \<and> set (blob_pixels b) = component msk w h s"
      using bok by (simp_all add: blob_ok_def)
    have "\<forall>q. lit msk w h q \<longrightarrow> card (component msk w h q) \<le> length (blob_pixels b)"
      using all_seen sizes ls by blast
    then show "distinct (blob_pixels b)
           \<and> (\<exists>s. lit msk w h s \<and> set (blob_pixels b) = component msk w h s)
           \<and> (\<forall>q. lit msk w h q \<longrightarrow> card (component msk w h q) \<le> length (blob_pixels b))"
      using d s by blast
  qed
  show ?thesis using r none some by blast
qed

lemma detectScreenArea_cases:
  "detectScreenArea cfg baseFrame activeFrame =
     (case findLargestBlob (processed_mask cfg baseFrame activeFrame)
             (frame_width baseFrame) (frame_height baseFrame) of
        None \<Rightarrow> None
      | Some None \<Rightarrow> Some None
      | Some (Some blb) \<Rightarrow>
          if length (blob_pixels blb) < minBlobSize cfg then Some None
          else Some (Some (detection_from_blob cfg
                 (blurred_difference cfg baseFrame activeFrame)
                 (frame_width baseFrame) (frame_height baseFrame) blb)))"
  by (simp add: detectScreenArea_def Let_def)

lemma det_pixelCount_from_blob:
  "det_pixelCount (detection_from_blob cfg blurredDiff w h blb) = length (blob_pixels blb)"
  by (simp add: detection_from_blob_def Let_def split: prod.splits)

text \<open>
  C3. For every mask, \<open>findLargestBlob\<close> returns: \<open>null\<close> exactly when no pixel of the
  image is 255, otherwise the pixels (each once) of a 4-connected component of mask==255
  pixels that no other component exceeds in size. \<open>detectScreenArea\<close> returns \<open>null\<close>
  exactly when there is no such component or it has fewer than \<open>minBlobSize\<close> pixels;
  otherwise it returns a detection whose \<open>pixelCount\<close> is the size of that component. So
  a mask with two disjoint lit regions yields one detection, of the larger region.
\<close>

theorem largest_blob_detection:
  "(\<exists>res. findLargestBlob msk w h = Some res
     \<and> (res = None \<longleftrightarrow> (\<forall>p. \<not> lit msk w h p))
     \<and> (\<forall>b. res = Some b \<longrightarrow>
           distinct (blob_pixels b)
           \<and> (\<exists>s. lit msk w h s \<and> set (blob_pixels b) = component msk w h s)
           \<and> (\<forall>q. lit msk w h q \<longrightarrow> card (component msk w h q) \<le> length (blob_pixels b))))
   \<and> (\<exists>res. findLargestBlob (processed_mask cfg baseFrame activeFrame)
               (frame_width baseFrame) (frame_height baseFrame) = Some res
        \<and> (detectScreenArea cfg baseFrame activeFrame = Some None \<longleftrightarrow>
             (case res of None \<Rightarrow> True
              | Some b \<Rightarrow> length (blob_pixels b) < minBlobSize cfg))
        \<and> (\<forall>b. res = Some b \<and> \<not> length (blob_pixels b) < minBlobSize cfg \<longrightarrow>
              (\<exists>d. detectScreenArea cfg baseFrame activeFrame = Some (Some d)
                 \<and> det_pixelCount d = length (blob_pixels b))))"
proof -
  obtain res where r: "findLargestBlob (processed_mask cfg baseFrame activeFrame)
               (frame_width baseFrame) (frame_height baseFrame) = Some res"
    using findLargestBlob_spec by blast
  have "detectScreenArea cfg baseFrame activeFrame = Some None \<longleftrightarrow>
             (case res of None \<Rightarrow> True
              | Some b \<Rightarrow> length (blob_pixels b) < minBlobSize cfg)"
    by (cases res) (simp_all add: detectScreenArea_cases r)
  moreover have "\<forall>b. res = Some b \<and> \<not> length (blob_pixels b) < minBlobSize cfg \<longrightarrow>
              (\<exists>d. detectScreenArea cfg baseFrame activeFrame = Some (Some d)
                 \<and> det_pixelCount d = length (blob_pixels b))"
    by (auto simp: detectScreenArea_cases r det_pixelCount_from_blob)
  ultimately show ?thesis using r findLargestBlob_spec [of msk w h] by blast
qed

lemma two_regions_blob:
  "findLargestBlob two_regions 3 3 = Some (Some \<lparr> blob_pixels = [(2, 0), (2, 1), (2, 2)] \<rparr>)"
  by code_simp

lemma two_regions_lit: "lit two_regions 3 3 (0, 0)"
  by (simp add: lit_def in_image_def mask_lit_def px_index_def two_regions_def)

lemma black_pixel_mask: "processed_mask CONFIG black_pixel black_pixel = [0]"
  by (simp add: processed_mask_def blurred_difference_def difference_map_def gaussianBlur_def
      black_pixel_def Let_def fill2d_def luminance_def blur_at_def createGaussianKernel_def
      CONFIG_def calculateAdaptiveThreshold_def step_stats_def dilate_def erode_def
      neighbourhood_def upto_m1_1 clampi_def u8_get_def js_max_def js_min_def to_uint8_def
      split: prod.splits)

lemma black_pixel_blob: "findLargestBlob [0] 1 1 = Some None"
  by code_simp


section \<open>Detections in normalized space\<close>

lemma index_less: "x < w \<Longrightarrow> y < h \<Longrightarrow> y * w + x < w * h" for x y w h :: nat
proof -
  assume x: "x < w" and y: "y < h"
  have "y * w + x < y * w + w" using x by simp
  also have "\<dots> = Suc y * w" by simp
  also have "\<dots> \<le> h * w" using y by (intro mult_le_mono1) simp
  finally show ?thesis by (simp add: mult.commute)
qed

lemma index_inj:
  fixes x y x' y' w :: nat
  assumes "x < w" "x' < w" "y * w + x = y' * w + x'"
  shows "x = x' \<and> y = y'"
proof -
  have "(y * w + x) mod w = (y' * w + x') mod w" using assms(3) by (rule arg_cong)
  then have x: "x = x'" using assms(1,2) by simp
  have "(y * w + x) div w = (y' * w + x') div w" using assms(3) by (rule arg_cong)
  then have "y = y'" using assms(1,2) by simp
  then show ?thesis using x by simp
qed

lemma fill2d_row:
  assumes len: "length res = w * h" and y: "y < h"
  shows "length (fold (\<lambda>x res. res[y * w + x := f x y]) [0..<n] res) = w * h
       \<and> (\<forall>i < w * h. fold (\<lambda>x res. res[y * w + x := f x y]) [0..<n] res ! i
             = (if \<exists>x < n. i = y * w + x then f (i - y * w) y else res ! i))"
proof (induction n)
  case 0
  show ?case using len by simp
next
  case (Suc n)
  let ?r = "fold (\<lambda>x res. res[y * w + x := f x y]) [0..<n] res"
  have l: "length ?r = w * h" using Suc by simp
  have v: "\<forall>i < w * h. ?r ! i = (if \<exists>x < n. i = y * w + x then f (i - y * w) y else res ! i)"
    using Suc by simp
  have e: "fold (\<lambda>x res. res[y * w + x := f x y]) [0..<Suc n] res = ?r[y * w + n := f n y]"
    by simp
  show ?case unfolding e
  proof (intro conjI allI impI)
    show "length (?r[y * w + n := f n y]) = w * h" using l by simp
  next
    fix i assume i: "i < w * h"
    show "?r[y * w + n := f n y] ! i
        = (if \<exists>x < Suc n. i = y * w + x then f (i - y * w) y else res ! i)"
    proof (cases "i = y * w + n")
      case True
      then show ?thesis using i l by auto
    next
      case False
      have "(\<exists>x < Suc n. i = y * w + x) \<longleftrightarrow> (\<exists>x < n. i = y * w + x)"
        using False by (auto simp: less_Suc_eq)
      then show ?thesis using False v i by simp
    qed
  qed
qed

lemma fill2d_rows:
  assumes len: "length init = w * h" and n: "n \<le> h"
  shows "length (fold (\<lambda>y res. fold (\<lambda>x res. res[y * w + x := f x y]) [0..<w] res) [0..<n] init)
           = w * h
       \<and> (\<forall>x < w. \<forall>y < n.
            fold (\<lambda>y res. fold (\<lambda>x res. res[y * w + x := f x y]) [0..<w] res) [0..<n] init
              ! (y * w + x) = f x y)"
  using n
proof (induction n)
  case 0
  show ?case using len by simp
next
  case (Suc n)
  let ?r = "fold (\<lambda>y res. fold (\<lambda>x res. res[y * w + x := f x y]) [0..<w] res) [0..<n] init"
  have l: "length ?r = w * h" and v: "\<forall>x < w. \<forall>y < n. ?r ! (y * w + x) = f x y"
    using Suc by simp_all
  have nh: "n < h" using Suc.prems by simp
  let ?s = "fold (\<lambda>x res. res[n * w + x := f x n]) [0..<w] ?r"
  have e: "fold (\<lambda>y res. fold (\<lambda>x res. res[y * w + x := f x y]) [0..<w] res) [0..<Suc n] init = ?s"
    by simp
  note row = fill2d_row [OF l nh, of f w]
  show ?case unfolding e
  proof (intro conjI allI impI)
    show "length ?s = w * h" using row by simp
  next
    fix x y assume x: "x < w" and y: "y < Suc n"
    have i: "y * w + x < w * h" using x y nh by (intro index_less) simp_all
    have s: "?s ! (y * w + x)
        = (if \<exists>x' < w. y * w + x = n * w + x' then f (y * w + x - n * w) n else ?r ! (y * w + x))"
      using row i by blast
    show "?s ! (y * w + x) = f x y"
    proof (cases "y = n")
      case True
      then show ?thesis using s x by auto
    next
      case False
      then have yn: "y < n" using y by simp
      have "\<not> (\<exists>x' < w. y * w + x = n * w + x')"
        using index_inj [OF x] False by blast
      then have "?s ! (y * w + x) = ?r ! (y * w + x)"
        using s by (simp only: if_False)
      then show ?thesis using v x yn by simp
    qed
  qed
qed

lemma fill2d_image:
  assumes "length init = w * h"
  shows "image_is w h (fill2d w h f init) f"
  using fill2d_rows [OF assms order_refl, of f] by (simp add: image_is_def fill2d_def)

lemma image_isD:
  assumes "image_is w h img F" "x < w" "y < h"
  shows "img ! (y * w + x) = F x y" and "y * w + x < length img"
  using assms index_less [of x w y h] by (simp_all add: image_is_def)

lemma image_is_length: "image_is w h img F \<Longrightarrow> length img = w * h"
  by (simp add: image_is_def)

lemma image_is_cong:
  assumes "image_is w h img F" "\<And>x y. x < w \<Longrightarrow> y < h \<Longrightarrow> F x y = G x y"
  shows "image_is w h img G"
  using assms by (simp add: image_is_def)

lemma image_is_map:
  assumes "image_is w h img F"
  shows "image_is w h (map g img) (\<lambda>x y. g (F x y))"
  using assms index_less [of _ w _ h] by (simp add: image_is_def)

lemma image_is_pixel:
  assumes "image_is w h img F" "in_image w h p"
  shows "img ! px_index w p = F (nat (fst p)) (nat (snd p))"
proof -
  obtain x y where p: "p = (int x, int y)" "x < w" "y < h"
    using assms(2) by (rule in_image_cases)
  show ?thesis using image_isD(1) [OF assms(1) p(2,3)] by (simp add: p px_index_nat)
qed

lemma clampi_range:
  assumes "0 < n"
  shows "0 \<le> clampi v 0 (int n - 1)" and "nat (clampi v 0 (int n - 1)) < n"
  using assms by (auto simp: clampi_def)

lemma blur_at_fold_cong:
  assumes "\<And>k. k \<in> set ks \<Longrightarrow> f k = g k"
  shows "fold (\<lambda>k (s, weightSum).
                   let weight = kern ! nat (k + int radius)
                   in (s + f k * weight, weightSum + weight)) ks acc
       = fold (\<lambda>k (s, weightSum).
                   let weight = kern ! nat (k + int radius)
                   in (s + g k * weight, weightSum + weight)) ks acc"
  using assms by (induction ks arbitrary: acc) simp_all

lemma blur_at_cong:
  assumes "\<And>k. - int radius \<le> k \<Longrightarrow> k \<le> int radius \<Longrightarrow> f k = g k"
  shows "blur_at kern radius f = blur_at kern radius g"
  unfolding blur_at_def
  by (subst blur_at_fold_cong [where g = g]) (use assms in auto)

lemma blur_at_lower:
  assumes pos: "\<And>k. - int radius \<le> k \<Longrightarrow> k \<le> int radius \<Longrightarrow> 0 < kern ! nat (k + int radius)"
    and lo: "\<And>k. - int radius \<le> k \<Longrightarrow> k \<le> int radius \<Longrightarrow> l \<le> f k"
  shows "l \<le> blur_at kern radius f"
proof -
  let ?step = "\<lambda>k (s, weightSum).
                   let weight = kern ! nat (k + int radius)
                   in (s + f k * weight, weightSum + weight)"
  let ?P = "\<lambda>acc. 0 \<le> snd acc \<and> l * snd acc \<le> fst acc"
  let ?Q = "\<lambda>acc. 0 < snd acc \<and> l * snd acc \<le> fst acc"
  have "?Q (fold ?step [- int radius..int radius] (0, 0))"
  proof (rule fold_invariant_nonempty [where P = ?P])
    show "[- int radius..int radius] \<noteq> []" by simp
    show "?P (0, 0)" by simp
  next
    fix k acc assume k: "k \<in> set [- int radius..int radius]" and a: "?P acc"
    obtain s ws where acc: "acc = (s, ws)" by (cases acc)
    let ?w = "kern ! nat (k + int radius)"
    have w: "0 < ?w" using pos k by simp
    have b: "l * ?w \<le> f k * ?w" using lo k w by simp
    have c: "0 \<le> ws" "l * ws \<le> s" using a by (simp_all add: acc)
    have e: "?step k acc = (s + f k * ?w, ws + ?w)" by (simp add: acc Let_def)
    show "?Q (?step k acc)"
      unfolding e fst_conv snd_conv distrib_left using b c w by (intro conjI; linarith)
  next
    fix acc assume "?Q acc" then show "?P acc" by simp
  qed
  then show ?thesis
    by (cases "fold ?step [- int radius..int radius] (0, 0)")
       (simp add: blur_at_def pos_le_divide_eq)
qed

lemma blur_at_upper:
  assumes pos: "\<And>k. - int radius \<le> k \<Longrightarrow> k \<le> int radius \<Longrightarrow> 0 < kern ! nat (k + int radius)"
    and hi: "\<And>k. - int radius \<le> k \<Longrightarrow> k \<le> int radius \<Longrightarrow> f k \<le> u"
  shows "blur_at kern radius f \<le> u"
proof -
  let ?step = "\<lambda>k (s, weightSum).
                   let weight = kern ! nat (k + int radius)
                   in (s + f k * weight, weightSum + weight)"
  let ?P = "\<lambda>acc. 0 \<le> snd acc \<and> fst acc \<le> u * snd acc"
  let ?Q = "\<lambda>acc. 0 < snd acc \<and> fst acc \<le> u * snd acc"
  have "?Q (fold ?step [- int radius..int radius] (0, 0))"
  proof (rule fold_invariant_nonempty [where P = ?P])
    show "[- int radius..int radius] \<noteq> []" by simp
    show "?P (0, 0)" by simp
  next
    fix k acc assume k: "k \<in> set [- int radius..int radius]" and a: "?P acc"
    obtain s ws where acc: "acc = (s, ws)" by (cases acc)
    let ?w = "kern ! nat (k + int radius)"
    have w: "0 < ?w" using pos k by simp
    have b: "f k * ?w \<le> u * ?w" using hi k w by simp
    have c: "0 \<le> ws" "s \<le> u * ws" using a by (simp_all add: acc)
    have e: "?step k acc = (s + f k * ?w, ws + ?w)" by (simp add: acc Let_def)
    show "?Q (?step k acc)"
      unfolding e fst_conv snd_conv distrib_left using b c w by (intro conjI; linarith)
  next
    fix acc assume "?Q acc" then show "?P acc" by simp
  qed
  then show ?thesis
    by (cases "fold ?step [- int radius..int radius] (0, 0)")
       (simp add: blur_at_def pos_divide_le_eq)
qed

lemma blur_at_const:
  assumes "\<And>k. - int radius \<le> k \<Longrightarrow> k \<le> int radius \<Longrightarrow> 0 < kern ! nat (k + int radius)"
    and "\<And>k. - int radius \<le> k \<Longrightarrow> k \<le> int radius \<Longrightarrow> f k = c"
  shows "blur_at kern radius f = c"
proof -
  have "c \<le> blur_at kern radius f"
    by (rule blur_at_lower) (use assms in auto)
  moreover have "blur_at kern radius f \<le> c"
    by (rule blur_at_upper) (use assms in auto)
  ultimately show ?thesis by simp
qed

lemma kernel_length: "length (createGaussianKernel radius) = 2 * radius + 1"
  by (simp add: createGaussianKernel_def Let_def)

lemma sum_list_pos_real:
  fixes xs :: "real list"
  shows "xs \<noteq> [] \<Longrightarrow> \<forall>v \<in> set xs. 0 < v \<Longrightarrow> 0 < sum_list xs"
proof (induction xs)
  case Nil
  then show ?case by simp
next
  case (Cons a xs)
  have "0 \<le> sum_list xs" using Cons.prems by (intro sum_list_nonneg) (simp add: less_imp_le)
  then show ?case using Cons.prems by simp
qed

lemma kernel_positive:
  assumes "- int radius \<le> k" "k \<le> int radius"
  shows "0 < createGaussianKernel radius ! nat (k + int radius)"
proof -
  let ?sigma = "real radius / 2"
  let ?kern = "map (\<lambda>i. exp (- (real_of_int (i * i)) / (2 * ?sigma * ?sigma)))
                 [- int radius..int radius]"
  have i: "nat (k + int radius) < length ?kern" using assms by simp
  have p: "\<forall>v \<in> set ?kern. 0 < v" by simp
  have ne: "?kern \<noteq> []" by simp
  have "0 < sum_list ?kern" using ne p by (rule sum_list_pos_real)
  moreover have "0 < ?kern ! nat (k + int radius)" using p i nth_mem by blast
  moreover have "createGaussianKernel radius = map (\<lambda>v. v / sum_list ?kern) ?kern"
    by (simp add: createGaussianKernel_def Let_def)
  then have "createGaussianKernel radius ! nat (k + int radius)
      = ?kern ! nat (k + int radius) / sum_list ?kern"
    using i by (simp only: nth_map)
  ultimately show ?thesis by simp
qed

lemma gaussianBlur_image:
  assumes img: "image_is w h data F"
  shows "image_is w h (gaussianBlur data w h radius)
           (\<lambda>x y. blur_at (createGaussianKernel radius) radius
              (\<lambda>k. blur_at (createGaussianKernel radius) radius
                 (\<lambda>j. F (nat (clampi (int x + j) 0 (int w - 1)))
                         (nat (clampi (int y + k) 0 (int h - 1))))))"
proof -
  let ?K = "createGaussianKernel radius"
  let ?temp = "fill2d w h
                   (\<lambda>x y. blur_at ?K radius
                      (\<lambda>k. data ! (y * w + nat (clampi (int x + k) 0 (int w - 1)))))
                   (replicate (length data) 0)"
  have len: "length (replicate (length data) (0::real)) = w * h"
    using img by (simp add: image_is_def)
  have t: "image_is w h ?temp
             (\<lambda>x y. blur_at ?K radius
                (\<lambda>k. data ! (y * w + nat (clampi (int x + k) 0 (int w - 1)))))"
    by (rule fill2d_image [OF len])
  have r: "image_is w h (gaussianBlur data w h radius)
             (\<lambda>x y. blur_at ?K radius
                (\<lambda>k. ?temp ! (nat (clampi (int y + k) 0 (int h - 1)) * w + x)))"
    unfolding gaussianBlur_def Let_def by (rule fill2d_image [OF len])
  show ?thesis
  proof (rule image_is_cong [OF r])
    fix x y assume x: "x < w" and y: "y < h"
    have w: "0 < w" and h: "0 < h" using x y by simp_all
    show "blur_at ?K radius (\<lambda>k. ?temp ! (nat (clampi (int y + k) 0 (int h - 1)) * w + x))
        = blur_at ?K radius
              (\<lambda>k. blur_at ?K radius
                 (\<lambda>j. F (nat (clampi (int x + j) 0 (int w - 1)))
                         (nat (clampi (int y + k) 0 (int h - 1)))))"
    proof (rule blur_at_cong)
      fix k
      let ?ny = "nat (clampi (int y + k) 0 (int h - 1))"
      have ny: "?ny < h" by (rule clampi_range(2) [OF h])
      have "?temp ! (?ny * w + x)
          = blur_at ?K radius (\<lambda>j. data ! (?ny * w + nat (clampi (int x + j) 0 (int w - 1))))"
        by (rule image_isD(1) [OF t x ny])
      also have "\<dots> = blur_at ?K radius (\<lambda>j. F (nat (clampi (int x + j) 0 (int w - 1))) ?ny)"
        by (rule blur_at_cong) (rule image_isD(1) [OF img clampi_range(2) [OF w] ny])
      finally show "?temp ! (?ny * w + x)
          = blur_at ?K radius (\<lambda>j. F (nat (clampi (int x + j) 0 (int w - 1))) ?ny)" .
    qed
  qed
qed

lemma difference_map_image:
  "image_is (frame_width baseFrame) (frame_height baseFrame)
     (difference_map baseFrame activeFrame)
     (\<lambda>x y. max 0 (luminance (frame_data activeFrame) ((y * frame_width baseFrame + x) * 4)
                    - luminance (frame_data baseFrame) ((y * frame_width baseFrame + x) * 4)))"
  unfolding difference_map_def Let_def by (rule fill2d_image) simp

lemma blurred_difference_nonneg:
  assumes "0 < gaussianBlurRadius cfg"
  shows "\<exists>G. image_is (frame_width baseFrame) (frame_height baseFrame)
           (blurred_difference cfg baseFrame activeFrame) G \<and> (\<forall>x y. 0 \<le> G x y)"
proof -
  let ?r = "gaussianBlurRadius cfg"
  let ?w = "frame_width baseFrame" and ?h = "frame_height baseFrame"
  let ?F = "\<lambda>x y. max 0 (luminance (frame_data activeFrame) ((y * ?w + x) * 4)
                    - luminance (frame_data baseFrame) ((y * ?w + x) * 4))"
  let ?G = "\<lambda>x y. blur_at (createGaussianKernel ?r) ?r
              (\<lambda>k. blur_at (createGaussianKernel ?r) ?r
                 (\<lambda>j. ?F (nat (clampi (int x + j) 0 (int ?w - 1)))
                         (nat (clampi (int y + k) 0 (int ?h - 1)))))"
  have "image_is ?w ?h (blurred_difference cfg baseFrame activeFrame) ?G"
    unfolding blurred_difference_def by (rule gaussianBlur_image [OF difference_map_image])
  moreover have "0 \<le> ?G x y" for x y
    by (intro blur_at_lower kernel_positive) simp_all
  ultimately show ?thesis by blast
qed

lemma fold_blob_step:
  "fold (blob_step d w) ps (a, b, c, e, tx, ty, tw) =
     (fold min (map fst ps) a, fold max (map fst ps) b,
      fold min (map snd ps) c, fold max (map snd ps) e,
      tx + (\<Sum>p\<leftarrow>ps. real_of_int (fst p) * d ! px_index w p),
      ty + (\<Sum>p\<leftarrow>ps. real_of_int (snd p) * d ! px_index w p),
      tw + (\<Sum>p\<leftarrow>ps. d ! px_index w p))"
  by (induction ps arbitrary: a b c e tx ty tw)
     (simp_all add: blob_step_def Let_def px_index_def min.commute max.commute)

lemma fold_min_Min: "fold min xs a = Min (insert a (set xs))" for a :: int
  using Min.set_eq_fold [of a xs] by simp

lemma fold_max_Max: "fold max xs a = Max (insert a (set xs))" for a :: int
  using Max.set_eq_fold [of a xs] by simp

lemma fold_min_bounds:
  fixes a :: int
  assumes "xs \<noteq> []" "\<forall>v \<in> set xs. 0 \<le> v \<and> v < a"
  shows "fold min xs a \<in> set xs" and "\<forall>v \<in> set xs. fold min xs a \<le> v"
proof -
  let ?m = "Min (insert a (set xs))"
  obtain v where v: "v \<in> set xs" using assms(1) by (cases xs) auto
  have le: "\<forall>u \<in> set xs. ?m \<le> u" by simp
  have "?m \<in> insert a (set xs)" by (rule Min_in) simp_all
  moreover have "?m \<noteq> a" using le v assms(2) by fastforce
  ultimately have "?m \<in> set xs" by simp
  then show "fold min xs a \<in> set xs" by (simp add: fold_min_Min)
  show "\<forall>v \<in> set xs. fold min xs a \<le> v" using le by (simp add: fold_min_Min)
qed

lemma fold_max_bounds:
  fixes xs :: "int list"
  assumes "xs \<noteq> []" "\<forall>v \<in> set xs. 0 \<le> v"
  shows "fold max xs 0 \<in> set xs" and "\<forall>v \<in> set xs. v \<le> fold max xs 0"
proof -
  let ?m = "Max (insert 0 (set xs))"
  obtain v where v: "v \<in> set xs" using assms(1) by (cases xs) auto
  have ge: "\<forall>u \<in> set xs. u \<le> ?m" by simp
  have m: "?m \<in> insert 0 (set xs)" by (rule Max_in) simp_all
  have "?m \<in> set xs"
  proof (cases "?m = 0")
    case True
    have "v \<le> 0" using ge v True by auto
    then have "v = 0" using assms(2) v by fastforce
    then show ?thesis using v True by simp
  next
    case False
    then show ?thesis using m by simp
  qed
  then show "fold max xs 0 \<in> set xs" by (simp add: fold_max_Max)
  show "\<forall>v \<in> set xs. v \<le> fold max xs 0" using ge by (simp add: fold_max_Max)
qed

lemma weighted_sum_bounds:
  fixes c :: "'a \<Rightarrow> real"
  assumes "\<forall>p \<in> set ps. 0 \<le> c p \<and> c p \<le> u \<and> 0 \<le> g p"
  shows "0 \<le> (\<Sum>p\<leftarrow>ps. g p)"
    and "0 \<le> (\<Sum>p\<leftarrow>ps. c p * g p)"
    and "(\<Sum>p\<leftarrow>ps. c p * g p) \<le> u * (\<Sum>p\<leftarrow>ps. g p)"
  using assms
proof (induction ps)
  case Nil
  { case 1 show ?case by simp }
  { case 2 show ?case by simp }
  { case 3 show ?case by simp }
next
  case (Cons p ps)
  { case 1 then show ?case using Cons.IH(1) by simp }
  { case 2 then show ?case using Cons.IH(2) by simp }
  { case 3
    have "c p * g p \<le> u * g p" using 3 by (simp add: mult_right_mono)
    then show ?case using Cons.IH(3) 3 by (simp add: distrib_left) }
qed

lemma int_bounds_real:
  fixes x :: int
  assumes "0 \<le> x" "x < int n"
  shows "0 \<le> real_of_int x" and "real_of_int x \<le> real n - 1"
proof -
  show "0 \<le> real_of_int x" using assms(1) by simp
  have "x \<le> int n - 1" using assms(2) by simp
  then have "real_of_int x \<le> real_of_int (int n - 1)" by (simp only: of_int_le_iff)
  then show "real_of_int x \<le> real n - 1" by simp
qed

lemma half_gap:
  fixes a b :: real
  shows "a < b \<Longrightarrow> b \<le> 1 \<Longrightarrow> a + (1 - b) / 2 < 1"
    and "0 \<le> a \<Longrightarrow> b \<le> 1 \<Longrightarrow> 0 \<le> a + (1 - b) / 2"
  by (simp_all add: field_simps)

lemma long_axis:
  fixes v :: real
  assumes "0 \<le> v" "v \<le> real n - 1"
  shows "0 \<le> v / real n" and "v / real n < 1"
proof -
  have n: "0 < real n" using assms by linarith
  show "0 \<le> v / real n" using assms n by simp
  show "v / real n < 1" using assms n by simp
qed

lemma short_axis:
  fixes v :: real
  assumes "0 \<le> v" "v \<le> real m - 1" "m \<le> n"
  shows "0 \<le> v / real m * (real m / real n) + (1 - real m / real n) / 2"
    and "v / real m * (real m / real n) + (1 - real m / real n) / 2 < 1"
proof -
  have m: "0 < real m" using assms by linarith
  have n: "0 < real n" using m assms(3) by simp
  have e: "v / real m * (real m / real n) = v / real n" using m by simp
  have s: "real m / real n \<le> 1" using assms(3) n by simp
  have "0 \<le> v / real n" using assms n by simp
  then show "0 \<le> v / real m * (real m / real n) + (1 - real m / real n) / 2"
    unfolding e using s by (rule half_gap(2))
  have "v / real n < real m / real n" using assms n by (simp add: divide_strict_right_mono)
  then show "v / real m * (real m / real n) + (1 - real m / real n) / 2 < 1"
    unfolding e using s by (rule half_gap(1))
qed

lemma clamp_axis:
  fixes nx nw :: real
  assumes "0 \<le> nx" "nx < 1" "nx + nw < 1"
    and "0 \<le> minNormalizedArea cfg" "minNormalizedArea cfg \<le> maxNormalizedArea cfg"
  shows "clamped_axis cfg (min (max nx 0) 1)
           (min (max nw (minNormalizedArea cfg)) (maxNormalizedArea cfg))"
  using assms unfolding clamped_axis_def by (auto simp: min_def max_def)

lemma normalized_area_axes:
  fixes x0 x1 y0 y1 :: int
  assumes x: "0 \<le> x0" "x0 < int w" "0 \<le> x1" "x1 < int w"
    and y: "0 \<le> y0" "y0 < int h" "0 \<le> y1" "y1 < int h"
    and mn: "0 \<le> minNormalizedArea cfg" "minNormalizedArea cfg \<le> maxNormalizedArea cfg"
  defines "a \<equiv> clampRect cfg (normalizeRectToSquare
               \<lparr> rect_x = real_of_int x0, rect_y = real_of_int y0,
                 rect_width = real_of_int (x1 - x0), rect_height = real_of_int (y1 - y0) \<rparr> w h)"
  shows "clamped_axis cfg (rect_x a) (rect_width a)"
    and "clamped_axis cfg (rect_y a) (rect_height a)"
proof -
  have bx: "0 \<le> real_of_int x0" "real_of_int x0 \<le> real w - 1"
           "0 \<le> real_of_int x1" "real_of_int x1 \<le> real w - 1"
    using int_bounds_real [OF x(1,2)] int_bounds_real [OF x(3,4)] by simp_all
  have yb: "0 \<le> real_of_int y0" "real_of_int y0 \<le> real h - 1"
           "0 \<le> real_of_int y1" "real_of_int y1 \<le> real h - 1"
    using int_bounds_real [OF y(1,2)] int_bounds_real [OF y(3,4)] by simp_all
  have w: "0 < real w" and h: "0 < real h" using x y by simp_all
  show "clamped_axis cfg (rect_x a) (rect_width a)"
  proof (cases "h \<le> w")
    case True
    have s: "real_of_int x0 / real w + real_of_int (x1 - x0) / real w = real_of_int x1 / real w"
      by (simp add: diff_divide_distrib)
    have "clamped_axis cfg (min (max (real_of_int x0 / real w) 0) 1)
            (min (max (real_of_int (x1 - x0) / real w) (minNormalizedArea cfg))
               (maxNormalizedArea cfg))"
      by (rule clamp_axis) (use long_axis [OF bx(1,2)] long_axis [OF bx(3,4)] s mn in simp_all)
    then show ?thesis using True w h
      by (simp add: a_def clampRect_def normalizeRectToSquare_def Let_def)
  next
    case False
    then have le: "w \<le> h" by simp
    let ?sc = "real w / real h"
    have s: "real_of_int x0 / real w * ?sc + (1 - ?sc) / 2 + real_of_int (x1 - x0) / real w * ?sc
           = real_of_int x1 / real w * ?sc + (1 - ?sc) / 2"
      by (simp add: algebra_simps diff_divide_distrib)
    have "clamped_axis cfg (min (max (real_of_int x0 / real w * ?sc + (1 - ?sc) / 2) 0) 1)
            (min (max (real_of_int (x1 - x0) / real w * ?sc) (minNormalizedArea cfg))
               (maxNormalizedArea cfg))"
      by (rule clamp_axis)
         (use short_axis [OF bx(1,2) le] short_axis [OF bx(3,4) le] s mn in simp_all)
    then show ?thesis using False w h
      by (simp add: a_def clampRect_def normalizeRectToSquare_def Let_def)
  qed
  show "clamped_axis cfg (rect_y a) (rect_height a)"
  proof (cases "h \<le> w")
    case True
    let ?sc = "real h / real w"
    have s: "real_of_int y0 / real h * ?sc + (1 - ?sc) / 2 + real_of_int (y1 - y0) / real h * ?sc
           = real_of_int y1 / real h * ?sc + (1 - ?sc) / 2"
      by (simp add: algebra_simps diff_divide_distrib)
    have "clamped_axis cfg (min (max (real_of_int y0 / real h * ?sc + (1 - ?sc) / 2) 0) 1)
            (min (max (real_of_int (y1 - y0) / real h * ?sc) (minNormalizedArea cfg))
               (maxNormalizedArea cfg))"
      by (rule clamp_axis)
         (use short_axis [OF yb(1,2) True] short_axis [OF yb(3,4) True] s mn in simp_all)
    then show ?thesis using True w h
      by (simp add: a_def clampRect_def normalizeRectToSquare_def Let_def)
  next
    case False
    have s: "real_of_int y0 / real h + real_of_int (y1 - y0) / real h = real_of_int y1 / real h"
      by (simp add: diff_divide_distrib)
    have "clamped_axis cfg (min (max (real_of_int y0 / real h) 0) 1)
            (min (max (real_of_int (y1 - y0) / real h) (minNormalizedArea cfg))
               (maxNormalizedArea cfg))"
      by (rule clamp_axis) (use long_axis [OF yb(1,2)] long_axis [OF yb(3,4)] s mn in simp_all)
    then show ?thesis using False w h
      by (simp add: a_def clampRect_def normalizeRectToSquare_def Let_def)
  qed
qed

lemma normalized_point_unit:
  fixes cx cy :: real
  assumes "0 \<le> cx" "cx \<le> real w - 1" "0 \<le> cy" "cy \<le> real h - 1"
  shows "unit_coordinate (point_x (normalizePointToSquare cx cy w h))"
    and "unit_coordinate (point_y (normalizePointToSquare cx cy w h))"
proof -
  show "unit_coordinate (point_x (normalizePointToSquare cx cy w h))"
  proof (cases "h \<le> w")
    case True
    show ?thesis
      unfolding normalizePointToSquare_def Let_def unit_coordinate_def if_P [OF True]
        point.select_convs
      using long_axis [OF assms(1,2)] by linarith
  next
    case False
    then have le: "w \<le> h" by simp
    show ?thesis
      unfolding normalizePointToSquare_def Let_def unit_coordinate_def if_not_P [OF False]
        point.select_convs
      using short_axis [OF assms(1,2) le] by linarith
  qed
  show "unit_coordinate (point_y (normalizePointToSquare cx cy w h))"
  proof (cases "h \<le> w")
    case True
    show ?thesis
      unfolding normalizePointToSquare_def Let_def unit_coordinate_def if_P [OF True]
        point.select_convs
      using short_axis [OF assms(3,4) True] by linarith
  next
    case False
    show ?thesis
      unfolding normalizePointToSquare_def Let_def unit_coordinate_def if_not_P [OF False]
        point.select_convs
      using long_axis [OF assms(3,4)] by linarith
  qed
qed

lemma refine_in_image:
  fixes d :: "real list" and w h :: nat and minX minY maxX maxY :: int
  assumes "0 \<le> minX" "minX \<le> maxX" "maxX < int w" "0 \<le> minY" "minY \<le> maxY" "maxY < int h"
  defines "r \<equiv> refineBoundingBox d w h minX minY maxX maxY"
  shows "0 \<le> box_minX r \<and> box_minX r < int w" and "0 \<le> box_maxX r \<and> box_maxX r < int w"
    and "0 \<le> box_minY r \<and> box_minY r < int h" and "0 \<le> box_maxY r \<and> box_maxY r < int h"
proof -
  note e = refine_edges [of d w h minX minY maxX maxY, folded r_def]
  have "box_minX r = maxX \<or> (\<exists>y. window_edge_pixel d w h minX minY maxX maxY (box_minX r) y)"
    using e by blast
  then show "0 \<le> box_minX r \<and> box_minX r < int w"
    using assms(1-6) by (auto simp: window_edge_pixel_def)
  have "box_maxX r = minX \<or> (\<exists>y. window_edge_pixel d w h minX minY maxX maxY (box_maxX r) y)"
    using e by blast
  then show "0 \<le> box_maxX r \<and> box_maxX r < int w"
    using assms(1-6) by (auto simp: window_edge_pixel_def)
  have "box_minY r = maxY \<or> (\<exists>x. window_edge_pixel d w h minX minY maxX maxY x (box_minY r))"
    using e by blast
  then show "0 \<le> box_minY r \<and> box_minY r < int h"
    using assms(1-6) by (auto simp: window_edge_pixel_def)
  have "box_maxY r = minY \<or> (\<exists>x. window_edge_pixel d w h minX minY maxX maxY x (box_maxY r))"
    using e by blast
  then show "0 \<le> box_maxY r \<and> box_maxY r < int h"
    using assms(1-6) by (auto simp: window_edge_pixel_def)
qed

lemma detection_from_blob_normalized:
  assumes img: "image_is w h blurred G" and nonneg: "\<forall>x y. 0 \<le> G x y"
    and ne: "blob_pixels b \<noteq> []" and inside: "\<forall>p \<in> set (blob_pixels b). in_image w h p"
    and mn: "0 \<le> minNormalizedArea cfg" "minNormalizedArea cfg \<le> maxNormalizedArea cfg"
  defines "d \<equiv> detection_from_blob cfg blurred w h b"
  shows "unit_coordinate (point_x (det_center d))"
    and "unit_coordinate (point_y (det_center d))"
    and "clamped_axis cfg (rect_x (det_area d)) (rect_width (det_area d))"
    and "clamped_axis cfg (rect_y (det_area d)) (rect_height (det_area d))"
proof -
  let ?ps = "blob_pixels b"
  define minX where "minX = fold min (map fst ?ps) (int w)"
  define maxX where "maxX = fold max (map fst ?ps) 0"
  define minY where "minY = fold min (map snd ?ps) (int h)"
  define maxY where "maxY = fold max (map snd ?ps) 0"
  define tx where "tx = (\<Sum>p\<leftarrow>?ps. real_of_int (fst p) * blurred ! px_index w p)"
  define ty where "ty = (\<Sum>p\<leftarrow>?ps. real_of_int (snd p) * blurred ! px_index w p)"
  define tw where "tw = (\<Sum>p\<leftarrow>?ps. blurred ! px_index w p)"
  have f: "fold (blob_step blurred w) ?ps (int w, 0, int h, 0, 0, 0, 0)
         = (minX, maxX, minY, maxY, tx, ty, tw)"
    by (simp add: fold_blob_step minX_def maxX_def minY_def maxY_def tx_def ty_def tw_def)
  have xs: "map fst ?ps \<noteq> []" "\<forall>v \<in> set (map fst ?ps). 0 \<le> v \<and> v < int w"
    and ys: "map snd ?ps \<noteq> []" "\<forall>v \<in> set (map snd ?ps). 0 \<le> v \<and> v < int h"
    using ne inside by (auto simp: in_image_def)
  have xs0: "\<forall>v \<in> set (map fst ?ps). 0 \<le> v" and ys0: "\<forall>v \<in> set (map snd ?ps). 0 \<le> v"
    using xs(2) ys(2) by blast+
  have x: "0 \<le> minX" "minX \<le> maxX" "maxX < int w"
  proof -
    have a: "minX \<in> set (map fst ?ps)" and b: "\<forall>v \<in> set (map fst ?ps). minX \<le> v"
      unfolding minX_def by (rule fold_min_bounds [OF xs])+
    have c: "maxX \<in> set (map fst ?ps)"
      unfolding maxX_def by (rule fold_max_bounds [OF xs(1) xs0])
    show "0 \<le> minX" using a xs(2) by blast
    show "minX \<le> maxX" using b c by blast
    show "maxX < int w" using c xs(2) by blast
  qed
  have y: "0 \<le> minY" "minY \<le> maxY" "maxY < int h"
  proof -
    have a: "minY \<in> set (map snd ?ps)" and b: "\<forall>v \<in> set (map snd ?ps). minY \<le> v"
      unfolding minY_def by (rule fold_min_bounds [OF ys])+
    have c: "maxY \<in> set (map snd ?ps)"
      unfolding maxY_def by (rule fold_max_bounds [OF ys(1) ys0])
    show "0 \<le> minY" using a ys(2) by blast
    show "minY \<le> maxY" using b c by blast
    show "maxY < int h" using c ys(2) by blast
  qed
  have wt: "0 \<le> blurred ! px_index w p" if "p \<in> set ?ps" for p
    using image_is_pixel [OF img] inside that nonneg by simp
  have cx: "\<forall>p \<in> set ?ps. 0 \<le> real_of_int (fst p) \<and> real_of_int (fst p) \<le> real w - 1
              \<and> 0 \<le> blurred ! px_index w p"
  proof
    fix p assume p: "p \<in> set ?ps"
    have "0 \<le> fst p" "fst p < int w" using inside p by (auto simp: in_image_def)
    then show "0 \<le> real_of_int (fst p) \<and> real_of_int (fst p) \<le> real w - 1
              \<and> 0 \<le> blurred ! px_index w p"
      using int_bounds_real [of "fst p" w] wt [OF p] by blast
  qed
  have cy: "\<forall>p \<in> set ?ps. 0 \<le> real_of_int (snd p) \<and> real_of_int (snd p) \<le> real h - 1
              \<and> 0 \<le> blurred ! px_index w p"
  proof
    fix p assume p: "p \<in> set ?ps"
    have "0 \<le> snd p" "snd p < int h" using inside p by (auto simp: in_image_def)
    then show "0 \<le> real_of_int (snd p) \<and> real_of_int (snd p) \<le> real h - 1
              \<and> 0 \<le> blurred ! px_index w p"
      using int_bounds_real [of "snd p" h] wt [OF p] by blast
  qed
  have t: "0 \<le> tw" "0 \<le> tx" "tx \<le> (real w - 1) * tw" "0 \<le> ty" "ty \<le> (real h - 1) * tw"
    unfolding tw_def tx_def ty_def
    using weighted_sum_bounds [OF cx] weighted_sum_bounds [OF cy] by blast+
  define centerX where
    "centerX = (if tw > 0 then tx / tw else real_of_int (minX + maxX) / 2)"
  define centerY where
    "centerY = (if tw > 0 then ty / tw else real_of_int (minY + maxY) / 2)"
  have bx: "0 \<le> real_of_int minX" "real_of_int minX \<le> real w - 1"
           "0 \<le> real_of_int maxX" "real_of_int maxX \<le> real w - 1"
    using int_bounds_real [of minX w] int_bounds_real [of maxX w] x by simp_all
  have yb: "0 \<le> real_of_int minY" "real_of_int minY \<le> real h - 1"
           "0 \<le> real_of_int maxY" "real_of_int maxY \<le> real h - 1"
    using int_bounds_real [of minY h] int_bounds_real [of maxY h] y by simp_all
  have c: "0 \<le> centerX" "centerX \<le> real w - 1" "0 \<le> centerY" "centerY \<le> real h - 1"
  proof -
    show "0 \<le> centerX" using t bx by (simp add: centerX_def)
    show "centerX \<le> real w - 1" using t bx by (simp add: centerX_def pos_divide_le_eq)
    show "0 \<le> centerY" using t yb by (simp add: centerY_def)
    show "centerY \<le> real h - 1" using t yb by (simp add: centerY_def pos_divide_le_eq)
  qed
  define r where "r = refineBoundingBox blurred w h minX minY maxX maxY"
  define a where "a = clampRect cfg (normalizeRectToSquare
               \<lparr> rect_x = real_of_int (box_minX r), rect_y = real_of_int (box_minY r),
                 rect_width = real_of_int (box_maxX r - box_minX r),
                 rect_height = real_of_int (box_maxY r - box_minY r) \<rparr> w h)"
  have d: "d = \<lparr> det_center = \<lparr> point_x = point_x (normalizePointToSquare centerX centerY w h),
                                point_y = point_y (normalizePointToSquare centerX centerY w h) \<rparr>,
                 det_area = \<lparr> rect_x = rect_x a, rect_y = rect_y a,
                              rect_width = rect_width a, rect_height = rect_height a \<rparr>,
                 det_pixelCount = length ?ps \<rparr>"
    unfolding d_def detection_from_blob_def f prod.case Let_def
    by (simp only: r_def a_def centerX_def centerY_def)
  note rb = refine_in_image [OF x y, of blurred, folded r_def]
  have ax: "clamped_axis cfg (rect_x a) (rect_width a)"
    and ay: "clamped_axis cfg (rect_y a) (rect_height a)"
    unfolding a_def using rb mn by (intro normalized_area_axes; simp)+
  show "unit_coordinate (point_x (det_center d))"
    using normalized_point_unit(1) [OF c] by (simp add: d)
  show "unit_coordinate (point_y (det_center d))"
    using normalized_point_unit(2) [OF c] by (simp add: d)
  show "clamped_axis cfg (rect_x (det_area d)) (rect_width (det_area d))"
    using ax by (simp add: d)
  show "clamped_axis cfg (rect_y (det_area d)) (rect_height (det_area d))"
    using ay by (simp add: d)
qed

lemma largest_blob_pixels:
  assumes "findLargestBlob msk w h = Some (Some b)"
  shows "blob_pixels b \<noteq> []" and "\<forall>p \<in> set (blob_pixels b). in_image w h p"
proof -
  obtain s where s: "lit msk w h s" "set (blob_pixels b) = component msk w h s"
    using findLargestBlob_spec [of msk w h] assms by auto
  have "s \<in> set (blob_pixels b)" using s(2) component_refl by blast
  then show "blob_pixels b \<noteq> []" by auto
  show "\<forall>p \<in> set (blob_pixels b). in_image w h p"
    using component_lit [OF s(1)] s(2) by (auto simp: lit_def)
qed

lemma detectScreenArea_blob:
  assumes "detectScreenArea cfg baseFrame activeFrame = Some (Some d)"
  obtains b where
    "findLargestBlob (processed_mask cfg baseFrame activeFrame)
       (frame_width baseFrame) (frame_height baseFrame) = Some (Some b)"
    "d = detection_from_blob cfg (blurred_difference cfg baseFrame activeFrame)
           (frame_width baseFrame) (frame_height baseFrame) b"
  using assms unfolding detectScreenArea_cases
  by (auto split: option.splits if_splits)

text \<open>
  C1, as the code has it. For every pair of well-formed frames of one size for which
  \<open>detectScreenArea\<close> returns a detection (blur radius positive, minimum extent not
  negative and not above the maximum): the center has x and y in [0, 1]; the area has x
  and y in [0, 1] and width and height between \<open>minNormalizedArea\<close> and
  \<open>maxNormalizedArea\<close>; the far edges \<open>x + width\<close> and \<open>y + height\<close> are at most 1
  unless the extent was raised to \<open>minNormalizedArea\<close>, and always stay below
  \<open>1 + minNormalizedArea\<close>.
\<close>

theorem detectScreenArea_normalized:
  assumes "wf_frame baseFrame" and "wf_frame activeFrame"
    and "frame_width activeFrame = frame_width baseFrame"
    and "frame_height activeFrame = frame_height baseFrame"
    and "0 < gaussianBlurRadius cfg"
    and "0 \<le> minNormalizedArea cfg" and "minNormalizedArea cfg \<le> maxNormalizedArea cfg"
    and "detectScreenArea cfg baseFrame activeFrame = Some (Some d)"
  shows "unit_coordinate (point_x (det_center d)) \<and> unit_coordinate (point_y (det_center d))
       \<and> clamped_axis cfg (rect_x (det_area d)) (rect_width (det_area d))
       \<and> clamped_axis cfg (rect_y (det_area d)) (rect_height (det_area d))"
proof -
  let ?w = "frame_width baseFrame" and ?h = "frame_height baseFrame"
  obtain b where b: "findLargestBlob (processed_mask cfg baseFrame activeFrame) ?w ?h
                       = Some (Some b)"
    and d: "d = detection_from_blob cfg (blurred_difference cfg baseFrame activeFrame) ?w ?h b"
    using assms(8) by (rule detectScreenArea_blob)
  obtain G where G: "image_is ?w ?h (blurred_difference cfg baseFrame activeFrame) G"
    "\<forall>x y. 0 \<le> G x y"
    using blurred_difference_nonneg [OF assms(5)] by blast
  note n = detection_from_blob_normalized [OF G largest_blob_pixels [OF b] assms(6,7), folded d]
  show ?thesis using n by blast
qed

lemma wf_dark_frame: "wf_frame dark_frame"
  by (auto simp: wf_frame_def dark_frame_def)

lemma wf_strip_frame: "wf_frame strip_frame"
  by (auto simp: wf_frame_def strip_frame_def strip_level_def)

lemma strip_luminance:
  assumes "x < 51" "y < 30"
  shows "luminance (frame_data strip_frame) ((y * 51 + x) * 4) = real (strip_level x)"
    and "luminance (frame_data dark_frame) ((y * 51 + x) * 4) = 0"
proof -
  define j where "j = y * 51 + x"
  have j: "j < 1530" using index_less [OF assms] by (simp add: j_def)
  have i: "j * 4 < 6120" "j * 4 + 1 < 6120" "j * 4 + 2 < 6120" using j by simp_all
  have m: "j * 4 mod 4 = 0" "(j * 4 + 1) mod 4 = 1" "(j * 4 + 2) mod 4 = 2"
          "j * 4 div 4 = j" "(j * 4 + 1) div 4 = j" "(j * 4 + 2) div 4 = j"
    by presburger+
  have x: "j mod 51 = x" using assms(1) by (simp add: j_def)
  have n: "frame_data strip_frame ! i
             = (if i mod 4 = 3 then 255 else strip_level (i div 4 mod 51))"
    and n': "frame_data dark_frame ! i = (if i mod 4 = 3 then 255 else 0)"
    if "i < 6120" for i
    using that by (simp_all add: strip_frame_def dark_frame_def)
  have s: "frame_data strip_frame ! (j * 4) = strip_level x"
          "frame_data strip_frame ! (j * 4 + 1) = strip_level x"
          "frame_data strip_frame ! (j * 4 + 2) = strip_level x"
    unfolding n [OF i(1)] n [OF i(2)] n [OF i(3)] m x by simp_all
  have d: "frame_data dark_frame ! (j * 4) = 0"
          "frame_data dark_frame ! (j * 4 + 1) = 0"
          "frame_data dark_frame ! (j * 4 + 2) = 0"
    unfolding n' [OF i(1)] n' [OF i(2)] n' [OF i(3)] m by simp_all
  show "luminance (frame_data strip_frame) ((y * 51 + x) * 4) = real (strip_level x)"
    unfolding j_def [symmetric] luminance_def s distrib_left [symmetric] by simp
  show "luminance (frame_data dark_frame) ((y * 51 + x) * 4) = 0"
    unfolding j_def [symmetric] luminance_def d by simp
qed

lemma strip_difference:
  "image_is 51 30 (difference_map dark_frame strip_frame) (\<lambda>x y. real (strip_level x))"
proof -
  have "image_is (frame_width dark_frame) (frame_height dark_frame)
     (difference_map dark_frame strip_frame)
     (\<lambda>x y. max 0 (luminance (frame_data strip_frame) ((y * frame_width dark_frame + x) * 4)
                    - luminance (frame_data dark_frame) ((y * frame_width dark_frame + x) * 4)))"
    by (rule difference_map_image)
  then have "image_is 51 30 (difference_map dark_frame strip_frame)
     (\<lambda>x y. max 0 (luminance (frame_data strip_frame) ((y * 51 + x) * 4)
                    - luminance (frame_data dark_frame) ((y * 51 + x) * 4)))"
    by (simp add: dark_frame_def)
  then show ?thesis
  proof (rule image_is_cong)
    fix x y :: nat assume a: "x < 51" "y < 30"
    show "max 0 (luminance (frame_data strip_frame) ((y * 51 + x) * 4)
                    - luminance (frame_data dark_frame) ((y * 51 + x) * 4))
        = real (strip_level x)"
      unfolding strip_luminance [OF a] by simp
  qed
qed

lemma strip_blurred_image:
  "image_is 51 30 (blurred_difference CONFIG dark_frame strip_frame) (\<lambda>x y. strip_blurred x)"
proof -
  have r: "gaussianBlurRadius CONFIG = 2" by (simp add: CONFIG_def)
  have "image_is 51 30 (gaussianBlur (difference_map dark_frame strip_frame) 51 30 2)
           (\<lambda>x y. blur_at (createGaussianKernel 2) 2
              (\<lambda>k. blur_at (createGaussianKernel 2) 2
                 (\<lambda>j. real (strip_level (nat (clampi (int x + j) 0 (int 51 - 1)))))))"
    by (rule gaussianBlur_image [OF strip_difference])
  then have "image_is 51 30 (blurred_difference CONFIG dark_frame strip_frame)
           (\<lambda>x y. blur_at (createGaussianKernel 2) 2
              (\<lambda>k. blur_at (createGaussianKernel 2) 2
                 (\<lambda>j. real (strip_level (nat (clampi (int x + j) 0 (int 51 - 1)))))))"
    by (simp add: blurred_difference_def r dark_frame_def)
  then show ?thesis
  proof (rule image_is_cong)
    fix x y :: nat
    show "blur_at (createGaussianKernel 2) 2
              (\<lambda>k. blur_at (createGaussianKernel 2) 2
                 (\<lambda>j. real (strip_level (nat (clampi (int x + j) 0 (int 51 - 1))))))
        = strip_blurred x"
      unfolding strip_blurred_def
      by (rule blur_at_const [OF kernel_positive]) simp_all
  qed
qed

lemma strip_blurred_range: "0 \<le> strip_blurred x" "strip_blurred x \<le> 60"
proof -
  show "0 \<le> strip_blurred x"
    unfolding strip_blurred_def by (intro blur_at_lower kernel_positive) simp_all
  show "strip_blurred x \<le> 60"
    unfolding strip_blurred_def
    by (intro blur_at_upper kernel_positive) (simp_all add: strip_level_def)
qed

lemma strip_blurred_background:
  assumes "x < 40"
  shows "strip_blurred x = 6"
  unfolding strip_blurred_def
proof (rule blur_at_const [OF kernel_positive])
  fix k :: int assume "- int 2 \<le> k" "k \<le> int 2"
  then have "nat (clampi (int x + k) 0 50) < 42" using assms by (auto simp: clampi_def)
  then show "real (strip_level (nat (clampi (int x + k) 0 50))) = 6"
    by (simp add: strip_level_def)
qed simp_all

lemma strip_blurred_dim:
  assumes "x < 48"
  shows "strip_blurred x \<le> 6"
  unfolding strip_blurred_def
proof (rule blur_at_upper [OF kernel_positive])
  fix k :: int assume "- int 2 \<le> k" "k \<le> int 2"
  then have "nat (clampi (int x + k) 0 50) < 50" using assms by (auto simp: clampi_def)
  then show "real (strip_level (nat (clampi (int x + k) 0 50))) \<le> 6"
    by (simp add: strip_level_def)
qed simp_all

lemma upto_m2_2: "[- 2..2] = [- 2, - 1, 0, 1, 2::int]"
  by (simp add: upto_rec1)

lemma kernel_radius2:
  "createGaussianKernel 2
     = map (\<lambda>v. v / (1 + 2 * exp (- (1 / 2)) + 2 * exp (- 2)))
         [exp (- 2), exp (- (1 / 2)), 1, exp (- (1 / 2)), exp (- 2 :: real)]"
  by (simp add: createGaussianKernel_def Let_def upto_rec1)

lemma exp_bounds:
  "0 < exp (- (1 / 2) :: real)" "0 < exp (- 2 :: real)"
  "exp (- (1 / 2) :: real) + exp (- 2) < 1"
proof -
  have a: "(3 / 2 :: real) \<le> exp (1 / 2)" using exp_ge_add_one_self [of "1 / 2 :: real"] by simp
  have "(2 :: real) \<le> exp 1" using exp_ge_add_one_self [of "1 :: real"] by simp
  then have "(2 :: real) * 2 \<le> exp 1 * exp 1" by (intro mult_mono) simp_all
  also have "\<dots> = exp (2 :: real)" by (simp add: exp_add [symmetric])
  finally have b: "(4 :: real) \<le> exp 2" by simp
  have "exp (- (1 / 2) :: real) = 1 / exp (1 / 2)" by (simp add: exp_minus inverse_eq_divide)
  also have "\<dots> \<le> 1 / (3 / 2)" using a by (intro divide_left_mono) simp_all
  finally have a': "exp (- (1 / 2) :: real) \<le> 2 / 3" by simp
  have "exp (- 2 :: real) = 1 / exp 2" by (simp add: exp_minus inverse_eq_divide)
  also have "\<dots> \<le> 1 / 4" using b by (intro divide_left_mono) simp_all
  finally have b': "exp (- 2 :: real) \<le> 1 / 4" .
  show "exp (- (1 / 2) :: real) + exp (- 2) < 1" using a' b' by simp
qed simp_all

lemma blur_at_radius2:
  "blur_at (createGaussianKernel 2) 2 f
     = (f (- 2) * exp (- 2) + f (- 1) * exp (- (1 / 2)) + f 0 + f 1 * exp (- (1 / 2))
          + f 2 * exp (- 2))
       / (1 + 2 * exp (- (1 / 2)) + 2 * exp (- 2))"
proof -
  define a b :: real where "a = exp (- (1 / 2))" and "b = exp (- 2)"
  define S where "S = 1 + 2 * a + 2 * b"
  have "0 < a" "0 < b" by (simp_all add: a_def b_def)
  then have S: "0 < S" unfolding S_def by linarith
  have K: "createGaussianKernel 2 = [b / S, a / S, 1 / S, a / S, b / S]"
    by (simp add: kernel_radius2 a_def b_def S_def)
  have "blur_at (createGaussianKernel 2) 2 f
      = (f (- 2) * (b / S) + f (- 1) * (a / S) + f 0 * (1 / S) + f 1 * (a / S) + f 2 * (b / S))
        / (b / S + a / S + 1 / S + a / S + b / S)"
    unfolding K blur_at_def by (simp add: upto_rec1 Let_def)
  also have "b / S + a / S + 1 / S + a / S + b / S = 1"
  proof -
    have "b / S + a / S + 1 / S + a / S + b / S = (b + a + 1 + a + b) / S"
      by (simp add: add_divide_distrib)
    also have "b + a + 1 + a + b = S" by (simp add: S_def)
    finally show ?thesis using S by simp
  qed
  also have "f (- 2) * (b / S) + f (- 1) * (a / S) + f 0 * (1 / S) + f 1 * (a / S) + f 2 * (b / S)
      = (f (- 2) * b + f (- 1) * a + f 0 + f 1 * a + f 2 * b) / S"
    by (simp add: add_divide_distrib)
  finally show ?thesis by (simp add: S_def a_def b_def)
qed

lemma strip_blurred_edge:
  "strip_blurred 48 \<le> 20" "strip_blurred 49 \<le> 20" "40 < strip_blurred 50"
proof -
  define a b :: real where "a = exp (- (1 / 2))" and "b = exp (- 2)"
  have p: "0 < a" "0 < b" "a + b < 1" using exp_bounds by (simp_all add: a_def b_def)
  have S: "0 < 1 + 2 * a + 2 * b" using p by linarith
  have "strip_blurred 48 = 60 * b / (1 + 2 * a + 2 * b)"
    by (simp add: strip_blurred_def blur_at_radius2 strip_level_def clampi_def a_def b_def)
  then show "strip_blurred 48 \<le> 20" using p S by (simp add: pos_divide_le_eq)
  have "strip_blurred 49 = (60 * a + 60 * b) / (1 + 2 * a + 2 * b)"
    by (simp add: strip_blurred_def blur_at_radius2 strip_level_def clampi_def a_def b_def)
  then show "strip_blurred 49 \<le> 20" using p S by (simp add: pos_divide_le_eq)
  have "strip_blurred 50 = (60 + 60 * a + 60 * b) / (1 + 2 * a + 2 * b)"
    by (simp add: strip_blurred_def blur_at_radius2 strip_level_def clampi_def a_def b_def)
  then show "40 < strip_blurred 50" using p S by (simp add: pos_less_divide_eq)
qed

lemma concat_rows_length:
  "length (concat (map (\<lambda>y. map (\<lambda>x. F x y) [0..<w]) [0..<h])) = w * h"
  by (induction h) simp_all

lemma concat_rows_nth:
  assumes "x < w" "y < h"
  shows "concat (map (\<lambda>y. map (\<lambda>x. F x y) [0..<w]) [0..<h]) ! (y * w + x) = F x y"
  using assms(2)
proof (induction h)
  case 0
  then show ?case by simp
next
  case (Suc h)
  let ?c = "concat (map (\<lambda>y. map (\<lambda>x. F x y) [0..<w]) [0..<h])"
  have e: "concat (map (\<lambda>y. map (\<lambda>x. F x y) [0..<w]) [0..<Suc h])
             = ?c @ map (\<lambda>x. F x h) [0..<w]"
    by simp
  have l: "length ?c = h * w" by (simp add: concat_rows_length mult.commute)
  show ?case
  proof (cases "y = h")
    case True
    have "(?c @ map (\<lambda>x. F x h) [0..<w]) ! (h * w + x) = map (\<lambda>x. F x h) [0..<w] ! x"
      using l by (simp add: nth_append)
    then show ?thesis unfolding e True using assms(1) by simp
  next
    case False
    then have y: "y < h" using Suc.prems by simp
    have "y * w + x < h * w" using index_less [OF assms(1) y] by (simp add: mult.commute)
    then have "(?c @ map (\<lambda>x. F x h) [0..<w]) ! (y * w + x) = ?c ! (y * w + x)"
      using l by (simp add: nth_append)
    then show ?thesis unfolding e using Suc.IH [OF y] by simp
  qed
qed

lemma image_is_rows:
  assumes "image_is w h img F"
  shows "img = concat (map (\<lambda>y. map (\<lambda>x. F x y) [0..<w]) [0..<h])"
proof (rule nth_equalityI)
  show "length img = length (concat (map (\<lambda>y. map (\<lambda>x. F x y) [0..<w]) [0..<h]))"
    using assms by (simp add: concat_rows_length image_is_def)
next
  fix i assume "i < length img"
  then have i: "i < w * h" using assms by (simp add: image_is_def)
  then have w: "0 < w" by (cases w) simp_all
  have x: "i mod w < w" using w by simp
  have y: "i div w < h" using i by (simp add: less_mult_imp_div_less mult.commute)
  have e: "i div w * w + i mod w = i" by simp
  have "img ! (i div w * w + i mod w) = F (i mod w) (i div w)"
    by (rule image_isD(1) [OF assms x y])
  moreover have "concat (map (\<lambda>y. map (\<lambda>x. F x y) [0..<w]) [0..<h]) ! (i div w * w + i mod w)
      = F (i mod w) (i div w)"
    by (rule concat_rows_nth [OF x y])
  ultimately show "img ! i = concat (map (\<lambda>y. map (\<lambda>x. F x y) [0..<w]) [0..<h]) ! i"
    unfolding e by simp
qed

lemma length_filter_rows:
  "length (filter P (concat (replicate n row))) = n * length (filter P row)"
  by (induction n) simp_all

lemma sum_by_counts:
  fixes q :: "real list"
  assumes "\<forall>v \<in> set q. 0 \<le> v \<and> v \<le> 60"
  shows "sum_list q \<le> 6 * real (length q) + 14 * real (length (filter (\<lambda>v. v > 6) q))
                      + 40 * real (length (filter (\<lambda>v. v > 20) q))"
    and "sum_list (map (\<lambda>v. v * v) q)
           \<le> 36 * real (length q) + 364 * real (length (filter (\<lambda>v. v > 6) q))
              + 3200 * real (length (filter (\<lambda>v. v > 20) q))"
  using assms
proof (induction q)
  case Nil
  { case 1 show ?case by simp }
  { case 2 show ?case by simp }
next
  case (Cons v q)
  { case 1
    then show ?case using Cons.IH(1) by auto }
  { case 2
    have v: "0 \<le> v" "v \<le> 60" using 2 by simp_all
    have a: "v * v \<le> 6 * 6" if "v \<le> 6" using v(1) that by (intro mult_mono) simp_all
    have b: "v * v \<le> 20 * 20" if "v \<le> 20" using v(1) that by (intro mult_mono) simp_all
    have c: "v * v \<le> 60 * 60" using v by (intro mult_mono) simp_all
    show ?case using Cons.IH(2) 2 a b c by auto }
qed

lemma threshold_at_floor:
  fixes data :: "real list"
  assumes le: "\<forall>v \<in> set data. v \<le> 60"
    and n: "1200 \<le> length (filter (\<lambda>v. v > 5) data)"
    and A: "length (filter (\<lambda>v. v > 6) data) \<le> 90"
    and B: "length (filter (\<lambda>v. v > 20) data) \<le> 30"
  shows "calculateAdaptiveThreshold CONFIG data w h = 40"
proof -
  define q where "q = above_noise_floor data"
  define c where "c = real (length q)"
  define s where "s = sum_list q"
  define sq where "sq = sum_list (map (\<lambda>v. v * v) q)"
  have q: "\<forall>v \<in> set q. 0 \<le> v \<and> v \<le> 60" using le by (auto simp: q_def above_noise_floor_def)
  have f6: "filter (\<lambda>v. v > 6) q = filter (\<lambda>v. v > 6) data"
    unfolding q_def above_noise_floor_def filter_filter
    by (rule filter_cong) auto
  have f20: "filter (\<lambda>v. v > 20) q = filter (\<lambda>v. v > 20) data"
    unfolding q_def above_noise_floor_def filter_filter
    by (rule filter_cong) auto
  have c: "1200 \<le> c" using n by (simp add: c_def q_def above_noise_floor_def)
  have a: "real (length (filter (\<lambda>v. v > 6) q)) \<le> 90"
    and b: "real (length (filter (\<lambda>v. v > 20) q)) \<le> 30"
    using A B by (simp_all add: f6 f20)
  have s: "s \<le> 6 * c + 2460" and sq: "sq \<le> 36 * c + 128760"
    using sum_by_counts [OF q] a b by (simp_all add: s_def sq_def c_def)
  have s0: "0 \<le> s" using q by (simp add: s_def sum_list_nonneg)
  define mean where "mean = s / c"
  have m: "mean \<le> 9" using s c by (simp add: mean_def pos_divide_le_eq)
  have "sq / c \<le> 144" using sq c by (simp add: pos_divide_le_eq)
  moreover have "0 \<le> mean * mean" by simp
  ultimately have "sq / c - mean * mean \<le> 144" by linarith
  then have v: "sq / c - mean * mean \<le> 12\<^sup>2" by simp
  have sd: "sqrt (sq / c - mean * mean) \<le> 12" by (rule real_le_lsqrt [OF _ v]) simp
  have "fold step_stats data (0, 0, 0) = (s, sq, length q)"
    by (simp add: fold_step_stats s_def sq_def q_def)
  moreover have "length q \<noteq> 0" using c by (auto simp: c_def)
  ultimately have "calculateAdaptiveThreshold CONFIG data w h
      = max 40 (mean + sqrt (sq / c - mean * mean) * 1.5)"
    by (simp add: calculateAdaptiveThreshold_def Let_def mean_def c_def CONFIG_def)
  then show ?thesis using m sd by simp
qed

lemma strip_blurred_rows:
  "blurred_difference CONFIG dark_frame strip_frame
     = concat (replicate 30 (map strip_blurred [0..<51]))"
  using image_is_rows [OF strip_blurred_image] by (simp add: map_replicate_const)

lemma strip_row_split:
  "map strip_blurred [0..<51]
     = map strip_blurred [0..<40] @ map strip_blurred [40..<48]
       @ [strip_blurred 48, strip_blurred 49, strip_blurred 50]"
proof -
  have "[0..<51] = [0..<40] @ [40..<48] @ [48, 49, 50]"
    by (simp add: upt_conv_Cons upt_add_eq_append [of 0 40 11, simplified] )
  then show ?thesis by simp
qed

lemma strip_threshold:
  "calculateAdaptiveThreshold CONFIG (blurred_difference CONFIG dark_frame strip_frame) w h = 40"
proof (rule threshold_at_floor)
  let ?row = "map strip_blurred [0..<51]"
  show "\<forall>v \<in> set (blurred_difference CONFIG dark_frame strip_frame). v \<le> 60"
    unfolding strip_blurred_rows using strip_blurred_range(2) by auto
  have "filter (\<lambda>v. v > 5) (map strip_blurred [0..<40]) = map strip_blurred [0..<40]"
    by (rule filter_True) (auto simp: strip_blurred_background)
  then have "40 \<le> length (filter (\<lambda>v. v > 5) ?row)"
    unfolding strip_row_split filter_append length_append by simp
  then show "1200 \<le> length (filter (\<lambda>v. v > 5)
                 (blurred_difference CONFIG dark_frame strip_frame))"
    unfolding strip_blurred_rows length_filter_rows by simp
  have le6: "\<not> strip_blurred x > 6" and le20: "\<not> strip_blurred x > 20" if "x < 48" for x
    using strip_blurred_dim [OF that] by linarith+
  have d: "filter (\<lambda>v. v > 6) (map strip_blurred [0..<40]) = []"
          "filter (\<lambda>v. v > 6) (map strip_blurred [40..<48]) = []"
          "filter (\<lambda>v. v > 20) (map strip_blurred [0..<40]) = []"
          "filter (\<lambda>v. v > 20) (map strip_blurred [40..<48]) = []"
    by (auto simp: filter_empty_conv le6 le20)
  have "length (filter (\<lambda>v. v > 6) ?row) \<le> 3"
    unfolding strip_row_split filter_append d by simp
  then show "length (filter (\<lambda>v. v > 6) (blurred_difference CONFIG dark_frame strip_frame))
               \<le> 90"
    unfolding strip_blurred_rows length_filter_rows by simp
  have "length (filter (\<lambda>v. v > 20) ?row) \<le> 1"
    unfolding strip_row_split filter_append d using strip_blurred_edge(1,2) by simp
  then show "length (filter (\<lambda>v. v > 20) (blurred_difference CONFIG dark_frame strip_frame))
               \<le> 30"
    unfolding strip_blurred_rows length_filter_rows by simp
qed

lemma u8_get_image:
  assumes "image_is w h msk M" "0 \<le> nx" "nx < int w" "0 \<le> ny" "ny < int h"
  shows "u8_get msk (ny * int w + nx) = Some (M (nat nx) (nat ny))"
proof -
  have i: "in_image w h (nx, ny)" using assms(2-5) by (simp add: in_image_def)
  have "px_index w (nx, ny) < length msk"
    using px_index_less [OF i] assms(1) by (simp add: image_is_def)
  moreover have "msk ! px_index w (nx, ny) = M (nat nx) (nat ny)"
    using image_is_pixel [OF assms(1) i] by simp
  moreover have "0 \<le> ny * int w + nx" using assms(2,4) by simp
  ultimately show ?thesis by (simp add: u8_get_def px_index_def)
qed

lemma neighbourhood_columns:
  assumes img: "image_is w h msk (\<lambda>x y. c x)" and x: "x < w" and y: "y < h"
  shows "neighbourhood opr start msk w h 1 x y
       = fold (\<lambda>ky acc.
            fold (\<lambda>kx acc. opr acc (Some (c (nat (clampi (int x + kx) 0 (int w - 1))))))
              [- 1..1] acc)
           [- 1..1] start"
proof -
  have w: "0 < w" and h: "0 < h" using x y by simp_all
  have g: "u8_get msk (clampi (int y + ky) 0 (int h - 1) * int w
                        + clampi (int x + kx) 0 (int w - 1))
         = Some (c (nat (clampi (int x + kx) 0 (int w - 1))))" for kx ky
    by (rule u8_get_image [OF img]) (use w h in \<open>auto simp: clampi_def\<close>)
  show ?thesis unfolding neighbourhood_def Let_def g ..
qed

lemma dilate_image:
  assumes "image_is w h msk M"
  shows "image_is w h (dilate msk w h 3)
           (\<lambda>x y. to_uint8 (neighbourhood js_max (Some 0) msk w h 1 x y))"
proof -
  have l: "length (replicate (length msk) (0::nat)) = w * h"
    using assms by (simp add: image_is_def)
  show ?thesis unfolding dilate_def Let_def using fill2d_image [OF l] by simp
qed

lemma erode_image:
  assumes "image_is w h msk M"
  shows "image_is w h (erode msk w h 3)
           (\<lambda>x y. to_uint8 (neighbourhood js_min (Some 255) msk w h 1 x y))"
proof -
  have l: "length (replicate (length msk) (0::nat)) = w * h"
    using assms by (simp add: image_is_def)
  show ?thesis unfolding erode_def Let_def using fill2d_image [OF l] by simp
qed

lemma strip_mask:
  "image_is 51 30
     (map (\<lambda>v. if v > 40 then 255 else 0) (blurred_difference CONFIG dark_frame strip_frame))
     (\<lambda>x y. if x = 50 then 255 else (0::nat))"
proof (rule image_is_cong [OF image_is_map [OF strip_blurred_image]])
  fix x y :: nat assume x: "x < 51"
  show "(if 40 < strip_blurred x then 255 else 0) = (if x = 50 then 255 else (0::nat))"
  proof (cases "x < 48")
    case True
    then show ?thesis using strip_blurred_dim [OF True] by simp
  next
    case False
    then have "x = 48 \<or> x = 49 \<or> x = 50" using x by auto
    then show ?thesis using strip_blurred_edge by auto
  qed
qed

lemma strip_dilated:
  "image_is 51 30
     (dilate (map (\<lambda>v. if v > 40 then 255 else 0)
                (blurred_difference CONFIG dark_frame strip_frame)) 51 30 3)
     (\<lambda>x y. if 49 \<le> x then 255 else (0::nat))"
proof (rule image_is_cong [OF dilate_image [OF strip_mask]])
  fix x y :: nat assume x: "x < 51" and y: "y < 30"
  show "to_uint8 (neighbourhood js_max (Some 0)
           (map (\<lambda>v. if v > 40 then 255 else 0)
              (blurred_difference CONFIG dark_frame strip_frame)) 51 30 1 x y)
      = (if 49 \<le> x then 255 else 0)"
    unfolding neighbourhood_columns [OF strip_mask x y]
    using x by (auto simp: upto_m1_1 js_max_def to_uint8_def clampi_def)
qed

lemma strip_processed_mask:
  "image_is 51 30 (processed_mask CONFIG dark_frame strip_frame)
     (\<lambda>x y. if x = 50 then 255 else (0::nat))"
proof -
  have e: "processed_mask CONFIG dark_frame strip_frame
         = erode (dilate (map (\<lambda>v. if v > 40 then 255 else 0)
                (blurred_difference CONFIG dark_frame strip_frame)) 51 30 3) 51 30 3"
    unfolding processed_mask_def Let_def strip_threshold
    by (simp add: dark_frame_def CONFIG_def)
  show ?thesis unfolding e
  proof (rule image_is_cong [OF erode_image [OF strip_dilated]])
    fix x y :: nat assume x: "x < 51" and y: "y < 30"
    show "to_uint8 (neighbourhood js_min (Some 255)
           (dilate (map (\<lambda>v. if v > 40 then 255 else 0)
                (blurred_difference CONFIG dark_frame strip_frame)) 51 30 3) 51 30 1 x y)
      = (if x = 50 then 255 else 0)"
      unfolding neighbourhood_columns [OF strip_dilated x y]
      using x by (auto simp: upto_m1_1 js_min_def to_uint8_def clampi_def)
  qed
qed

lemma strip_lit:
  "lit (processed_mask CONFIG dark_frame strip_frame) 51 30 p
     \<longleftrightarrow> in_image 51 30 p \<and> fst p = 50"
proof (cases "in_image 51 30 p")
  case True
  have l: "px_index 51 p < length (processed_mask CONFIG dark_frame strip_frame)"
    using px_index_less [OF True] image_is_length [OF strip_processed_mask] by simp
  have "0 \<le> fst p" using True by (simp add: in_image_def)
  then have "nat (fst p) = 50 \<longleftrightarrow> fst p = 50" by auto
  then show ?thesis
    using True l image_is_pixel [OF strip_processed_mask True]
    by (simp add: lit_def mask_lit_def)
next
  case False
  then show ?thesis by (simp add: lit_def)
qed

lemma strip_column_connected:
  "n < 30 \<Longrightarrow> (50, int n) \<in> component (processed_mask CONFIG dark_frame strip_frame) 51 30 (50, 0)"
proof (induction n)
  case 0
  show ?case using component_refl [of "(50, 0)"] by simp
next
  case (Suc n)
  let ?m = "processed_mask CONFIG dark_frame strip_frame"
  have a: "(50, int n) \<in> component ?m 51 30 (50, 0)" using Suc by simp
  have l: "lit ?m 51 30 (50, int n)" "lit ?m 51 30 (50, int (Suc n))"
    using Suc.prems by (simp_all add: strip_lit in_image_def)
  have "adjacent4 (50, int n) (50, int (Suc n))"
    by (simp add: adjacent4_def directions_def)
  then show ?case by (rule component_step [OF a l])
qed

lemma strip_component:
  assumes "lit (processed_mask CONFIG dark_frame strip_frame) 51 30 s"
  shows "component (processed_mask CONFIG dark_frame strip_frame) 51 30 s
       = {50} \<times> {0..<30}"
proof -
  let ?m = "processed_mask CONFIG dark_frame strip_frame"
  have col: "p \<in> component ?m 51 30 (50, 0)" if "p \<in> {50} \<times> {0..<30}" for p :: pixel
  proof -
    obtain a c where p: "p = (a, c)" by (cases p)
    have "a = 50" "0 \<le> c" "c < 30" using that by (simp_all add: p)
    then have "p = (50, int (nat c))" "nat c < 30" by (simp_all add: p)
    then show ?thesis using strip_column_connected [of "nat c"] by simp
  qed
  have "s \<in> {50} \<times> {0..<30}" using assms by (cases s) (auto simp: strip_lit in_image_def)
  then have e: "component ?m 51 30 s = component ?m 51 30 (50, 0)"
    by (intro component_eq col)
  have l0: "lit ?m 51 30 (50, 0)" by (simp add: strip_lit in_image_def)
  show ?thesis unfolding e
  proof (intro equalityI subsetI)
    fix p assume "p \<in> component ?m 51 30 (50, 0)"
    then have "lit ?m 51 30 p" by (rule component_lit [OF l0])
    then show "p \<in> {50} \<times> {0..<30}" by (cases p) (auto simp: strip_lit in_image_def)
  qed (rule col)
qed

lemma strip_blob:
  obtains b where
    "findLargestBlob (processed_mask CONFIG dark_frame strip_frame) 51 30 = Some (Some b)"
    "set (blob_pixels b) = {50} \<times> {0..<30}" "length (blob_pixels b) = 30"
proof -
  let ?m = "processed_mask CONFIG dark_frame strip_frame"
  have l0: "lit ?m 51 30 (50, 0)" by (simp add: strip_lit in_image_def)
  obtain res where res: "findLargestBlob ?m 51 30 = Some res"
    and none: "res = None \<longleftrightarrow> (\<forall>p. \<not> lit ?m 51 30 p)"
    and some: "\<forall>b. res = Some b \<longrightarrow>
           distinct (blob_pixels b)
           \<and> (\<exists>s. lit ?m 51 30 s \<and> set (blob_pixels b) = component ?m 51 30 s)
           \<and> (\<forall>q. lit ?m 51 30 q \<longrightarrow> card (component ?m 51 30 q) \<le> length (blob_pixels b))"
    using findLargestBlob_spec [of ?m 51 30] by blast
  obtain b where b: "res = Some b" using none l0 by (cases res) auto
  have d: "distinct (blob_pixels b)" using some b by blast
  obtain s where s: "lit ?m 51 30 s" "set (blob_pixels b) = component ?m 51 30 s"
    using some b by blast
  have set: "set (blob_pixels b) = {50} \<times> {0..<30}" using s strip_component by simp
  have "length (blob_pixels b) = card (set (blob_pixels b))"
    using d by (simp add: distinct_card)
  also have "\<dots> = 30" unfolding set by (simp add: card_cartesian_product)
  finally show ?thesis using that res b set by simp
qed

lemma strip_blurred_at:
  assumes "0 \<le> x" "x < 51" "0 \<le> y" "y < 30"
  shows "f32_gt (blurred_difference CONFIG dark_frame strip_frame) (y * int 51 + x) t
           \<longleftrightarrow> strip_blurred (nat x) > t"
proof -
  let ?d = "blurred_difference CONFIG dark_frame strip_frame"
  have i: "in_image 51 30 (x, y)" using assms by (simp add: in_image_def)
  have "px_index 51 (x, y) < length ?d"
    using px_index_less [OF i] image_is_length [OF strip_blurred_image] by simp
  moreover have "?d ! px_index 51 (x, y) = strip_blurred (nat x)"
    using image_is_pixel [OF strip_blurred_image i] by simp
  moreover have "0 \<le> y * int 51 + x" using assms by simp
  ultimately show ?thesis by (simp add: f32_gt_def px_index_def)
qed

lemma strip_refined:
  "refineBoundingBox (blurred_difference CONFIG dark_frame strip_frame) 51 30 50 0 50 29
     = \<lparr> box_minX = 50, box_maxX = 50, box_minY = 0, box_maxY = 29 \<rparr>"
proof -
  let ?d = "blurred_difference CONFIG dark_frame strip_frame"
  define r where "r = refineBoundingBox ?d 51 30 50 0 50 29"
  have edge: "x = 50" if "window_edge_pixel ?d 51 30 50 0 50 29 x y" for x y
  proof -
    have b: "45 \<le> x" "x \<le> 50" "0 \<le> y" "y \<le> 29"
      and g: "f32_gt ?d (y * int 51 + x) 20"
      using that by (simp_all add: window_edge_pixel_def)
    have "strip_blurred (nat x) > 20" using strip_blurred_at [of x y 20] b g by simp
    moreover have "nat x = 45 \<or> nat x = 46 \<or> nat x = 47 \<or> nat x = 48 \<or> nat x = 49 \<or> nat x = 50"
      using b by auto
    ultimately have "nat x = 50"
      using strip_blurred_dim [of 45] strip_blurred_dim [of 46] strip_blurred_dim [of 47]
        strip_blurred_edge(1,2) by auto
    then show ?thesis by simp
  qed
  have bright: "window_edge_pixel ?d 51 30 50 0 50 29 50 y" if "0 \<le> y" "y \<le> 29" for y
    using that strip_blurred_at [of 50 y 20] strip_blurred_edge(3)
    by (simp add: window_edge_pixel_def)
  note e = refine_edges [of ?d 51 30 50 0 50 29, folded r_def]
  note c = refine_covers(2) [of ?d 51 30 50 0 50 29, folded r_def]
  note i = refine_in_image [of 50 50 51 0 29 30 ?d, folded r_def]
  have "box_minX r = 50 \<or> (\<exists>y. window_edge_pixel ?d 51 30 50 0 50 29 (box_minX r) y)"
    using e by blast
  then have x0: "box_minX r = 50" using edge by blast
  have "box_maxX r = 50 \<or> (\<exists>y. window_edge_pixel ?d 51 30 50 0 50 29 (box_maxX r) y)"
    using e by blast
  then have x1: "box_maxX r = 50" using edge by blast
  have "in_box r 50 0" "in_box r 50 29" using c bright by simp_all
  then have "box_minY r \<le> 0" "29 \<le> box_maxY r" by (simp_all add: in_box_def)
  moreover have "0 \<le> box_minY r" "box_maxY r < 30" using i by simp_all
  ultimately have y: "box_minY r = 0" "box_maxY r = 29" by simp_all
  show ?thesis unfolding r_def [symmetric] using x0 x1 y by (cases r) simp
qed

lemma strip_blob_box:
  assumes "set (blob_pixels b) = {50} \<times> {0..<30}"
  shows "\<exists>tx ty tw. fold (blob_step d 51) (blob_pixels b) (int 51, 0, int 30, 0, 0, 0, 0)
           = (50, 50, 0, 29, tx, ty, tw)"
proof -
  let ?ps = "blob_pixels b"
  have xs: "set (map fst ?ps) = {50}" and ys: "set (map snd ?ps) = {0..<30}"
    using assms by (simp_all add: image_def) force+
  have ne: "map fst ?ps \<noteq> []" "map snd ?ps \<noteq> []" using xs by auto
  have rx: "\<forall>v \<in> set (map fst ?ps). 0 \<le> v \<and> v < int 51"
    and ry: "\<forall>v \<in> set (map snd ?ps). 0 \<le> v \<and> v < int 30"
    unfolding xs ys by simp_all
  have rx0: "\<forall>v \<in> set (map fst ?ps). 0 \<le> v" and ry0: "\<forall>v \<in> set (map snd ?ps). 0 \<le> v"
    unfolding xs ys by simp_all
  have "fold min (map fst ?ps) (int 51) \<in> set (map fst ?ps)"
    by (rule fold_min_bounds(1) [OF ne(1) rx])
  then have a: "fold min (map fst ?ps) (int 51) = 50" unfolding xs by simp
  have "fold max (map fst ?ps) 0 \<in> set (map fst ?ps)"
    by (rule fold_max_bounds(1) [OF ne(1) rx0])
  then have b: "fold max (map fst ?ps) 0 = 50" unfolding xs by simp
  have "fold min (map snd ?ps) (int 30) \<in> set (map snd ?ps)"
       "\<forall>v \<in> set (map snd ?ps). fold min (map snd ?ps) (int 30) \<le> v"
    by (rule fold_min_bounds [OF ne(2) ry])+
  then have c: "fold min (map snd ?ps) (int 30) = 0" unfolding ys by force
  have "fold max (map snd ?ps) 0 \<in> set (map snd ?ps)"
       "\<forall>v \<in> set (map snd ?ps). v \<le> fold max (map snd ?ps) 0"
    by (rule fold_max_bounds [OF ne(2) ry0])+
  then have "fold max (map snd ?ps) 0 < 30" "29 \<le> fold max (map snd ?ps) 0"
    unfolding ys by simp_all
  then have e: "fold max (map snd ?ps) 0 = 29" by simp
  show ?thesis unfolding fold_blob_step a b c e by blast
qed

lemma strip_detection:
  obtains d where "detectScreenArea CONFIG dark_frame strip_frame = Some (Some d)"
    "rect_x (det_area d) = 50 / 51" "rect_width (det_area d) = 1 / 50"
proof -
  let ?bd = "blurred_difference CONFIG dark_frame strip_frame"
  obtain b where b: "findLargestBlob (processed_mask CONFIG dark_frame strip_frame) 51 30
                       = Some (Some b)"
    and set: "set (blob_pixels b) = {50} \<times> {0..<30}" and len: "length (blob_pixels b) = 30"
    by (rule strip_blob)
  obtain tx ty tw where f: "fold (blob_step ?bd 51) (blob_pixels b) (int 51, 0, int 30, 0, 0, 0, 0)
           = (50, 50, 0, 29, tx, ty, tw)"
    using strip_blob_box [OF set] by blast
  define d where "d = detection_from_blob CONFIG ?bd 51 30 b"
  have w: "frame_width dark_frame = 51" "frame_height dark_frame = 30"
    by (simp_all add: dark_frame_def)
  have mb: "minBlobSize CONFIG = 30" by (simp add: CONFIG_def)
  have "detectScreenArea CONFIG dark_frame strip_frame = Some (Some d)"
    unfolding detectScreenArea_cases w b option.case len mb d_def by simp
  moreover have "rect_x (det_area d) = 50 / 51" "rect_width (det_area d) = 1 / 50"
    unfolding d_def detection_from_blob_def f prod.case Let_def strip_refined
    by (simp_all add: clampRect_def normalizeRectToSquare_def CONFIG_def)
  ultimately show ?thesis by (rule that)
qed

theorem detectScreenArea_normalized_witness:
  "\<exists>d. detectScreenArea CONFIG dark_frame strip_frame = Some (Some d)
     \<and> unit_coordinate (point_x (det_center d)) \<and> unit_coordinate (point_y (det_center d))
     \<and> clamped_axis CONFIG (rect_x (det_area d)) (rect_width (det_area d))
     \<and> clamped_axis CONFIG (rect_y (det_area d)) (rect_height (det_area d))
     \<and> rect_width (det_area d) = minNormalizedArea CONFIG"
proof -
  obtain d where d: "detectScreenArea CONFIG dark_frame strip_frame = Some (Some d)"
    and w: "rect_width (det_area d) = 1 / 50"
    by (rule strip_detection)
  have n: "unit_coordinate (point_x (det_center d)) \<and> unit_coordinate (point_y (det_center d))
       \<and> clamped_axis CONFIG (rect_x (det_area d)) (rect_width (det_area d))
       \<and> clamped_axis CONFIG (rect_y (det_area d)) (rect_height (det_area d))"
    by (rule detectScreenArea_normalized [OF wf_dark_frame wf_strip_frame _ _ _ _ _ d])
       (simp_all add: dark_frame_def strip_frame_def CONFIG_def)
  have "rect_width (det_area d) = minNormalizedArea CONFIG" unfolding w by (simp add: CONFIG_def)
  then show ?thesis using d n by blast
qed

text \<open>
  C1 as stated fails for the area: \<open>clampRect\<close> raises a width below \<open>minNormalizedArea\<close>
  to that minimum without moving x. With a black base frame and an active frame whose only
  bright column is the last of 51 (both well formed, 51 x 30), a detection is returned
  whose area starts at x = 50 / 51 and has the width 0.02: its right edge lies outside the
  unit square.
\<close>

theorem detectScreenArea_unit_square_counterexample:
  "wf_frame dark_frame \<and> wf_frame strip_frame
   \<and> frame_width strip_frame = frame_width dark_frame
   \<and> frame_height strip_frame = frame_height dark_frame
   \<and> map_option (map_option (rect_x \<circ> det_area))
        (detectScreenArea CONFIG dark_frame strip_frame) = Some (Some (50 / 51))
   \<and> map_option (map_option (rect_width \<circ> det_area))
        (detectScreenArea CONFIG dark_frame strip_frame) = Some (Some (1 / 50))
   \<and> (1::real) < 50 / 51 + 1 / 50"
proof -
  obtain d where d: "detectScreenArea CONFIG dark_frame strip_frame = Some (Some d)"
    and x: "rect_x (det_area d) = 50 / 51" and w: "rect_width (det_area d) = 1 / 50"
    by (rule strip_detection)
  have "frame_width strip_frame = frame_width dark_frame"
       "frame_height strip_frame = frame_height dark_frame"
    by (simp_all add: dark_frame_def strip_frame_def)
  then show ?thesis
    using wf_dark_frame wf_strip_frame by (simp add: d x w)
qed

section \<open>The blob of the bright column, detected\<close>

theorem largest_blob_detection_witness:
  "findLargestBlob two_regions 3 3 = Some (Some \<lparr> blob_pixels = [(2, 0), (2, 1), (2, 2)] \<rparr>)
   \<and> lit two_regions 3 3 (0, 0)
   \<and> card (component two_regions 3 3 (0, 0)) \<le> 3
   \<and> findLargestBlob (processed_mask CONFIG black_pixel black_pixel) 1 1 = Some None
   \<and> detectScreenArea CONFIG black_pixel black_pixel = Some None
   \<and> (\<exists>d. detectScreenArea CONFIG dark_frame strip_frame = Some (Some d)
          \<and> det_pixelCount d = 30)"
proof -
  from largest_blob_detection [of two_regions 3 3 CONFIG black_pixel black_pixel]
  obtain res res' where
    a: "findLargestBlob two_regions 3 3 = Some res"
    and b: "\<forall>b. res = Some b \<longrightarrow>
           (\<forall>q. lit two_regions 3 3 q \<longrightarrow> card (component two_regions 3 3 q) \<le> length (blob_pixels b))"
    and c: "findLargestBlob (processed_mask CONFIG black_pixel black_pixel)
               (frame_width black_pixel) (frame_height black_pixel) = Some res'"
    and d: "detectScreenArea CONFIG black_pixel black_pixel = Some None \<longleftrightarrow>
             (case res' of None \<Rightarrow> True
              | Some b \<Rightarrow> length (blob_pixels b) < minBlobSize CONFIG)"
    by blast
  have r: "res = Some \<lparr> blob_pixels = [(2, 0), (2, 1), (2, 2)] \<rparr>"
    using a two_regions_blob by simp
  have card: "card (component two_regions 3 3 (0, 0)) \<le> 3"
    using b r two_regions_lit by fastforce
  have m: "findLargestBlob (processed_mask CONFIG black_pixel black_pixel) 1 1 = Some None"
    by (simp only: black_pixel_mask black_pixel_blob)
  have "res' = None" using c m by (simp add: black_pixel_def)
  then have n: "detectScreenArea CONFIG black_pixel black_pixel = Some None" using d by simp
  from largest_blob_detection [of two_regions 3 3 CONFIG dark_frame strip_frame]
  obtain res'' where
    e: "findLargestBlob (processed_mask CONFIG dark_frame strip_frame)
               (frame_width dark_frame) (frame_height dark_frame) = Some res''"
    and f: "\<forall>b. res'' = Some b \<and> \<not> length (blob_pixels b) < minBlobSize CONFIG \<longrightarrow>
              (\<exists>d. detectScreenArea CONFIG dark_frame strip_frame = Some (Some d)
                 \<and> det_pixelCount d = length (blob_pixels b))"
    by blast
  obtain b' where g: "findLargestBlob (processed_mask CONFIG dark_frame strip_frame) 51 30
                        = Some (Some b')"
    and len: "length (blob_pixels b') = 30"
    by (rule strip_blob)
  have "res'' = Some b'" using e g by (simp add: dark_frame_def)
  moreover have "\<not> length (blob_pixels b') < minBlobSize CONFIG"
    by (simp add: len CONFIG_def)
  ultimately have "\<exists>d. detectScreenArea CONFIG dark_frame strip_frame = Some (Some d)
          \<and> det_pixelCount d = 30"
    using f len by fastforce
  then show ?thesis using two_regions_blob two_regions_lit card m n by blast
qed


section \<open>Adaptive threshold: a variance rounded below zero\<close>

lemma replicate_numeral_unfold: "replicate (numeral k) x = x # replicate (pred_numeral k) x"
  by (simp add: numeral_eq_Suc)

lemma uniform_map_sums:
  "fold step_stats_double uniform_map (0, 0, 0)
     = (12917473 / 1024, 1334888869645831 / 536870912, 64)"
  by (simp add: uniform_map_def step_stats_double_def to_double_def binade_def pow2_def
        round_half_even_def Let_def replicate_numeral_unfold)

lemma uniform_map_claimed:
  "max (brightnessThreshold CONFIG)
       (spec_mean (above_noise_floor uniform_map)
          + 1.5 * spec_stdDev (above_noise_floor uniform_map))
     = 12917473 / 65536"
proof -
  have q: "above_noise_floor uniform_map = replicate 64 (12917473 / 65536)"
    by (simp add: above_noise_floor_def uniform_map_def)
  have m: "spec_mean (replicate 64 (12917473 / 65536)) = 12917473 / 65536"
    by (simp add: spec_mean_def sum_list_replicate)
  have "map (\<lambda>v. (v - 12917473 / 65536)\<^sup>2) (replicate 64 (12917473 / 65536 :: real))
      = replicate 64 0"
    by simp
  then have d: "spec_stdDev (replicate 64 (12917473 / 65536)) = 0"
    unfolding spec_stdDev_def m by (simp add: sum_list_replicate)
  show ?thesis unfolding q m d by (simp add: CONFIG_def)
qed

lemma threshold_double_dark:
  assumes "\<forall>v \<in> set data. v \<le> 5"
  shows "calculateAdaptiveThreshold_double cfg data w h = Some (brightnessThreshold cfg)"
proof -
  have "fold step_stats_double data (0, 0, 0) = (0, 0, 0)"
    by (rule fold_invariant [where P = "\<lambda>acc. acc = (0, 0, 0)"])
       (use assms in \<open>auto simp: step_stats_double_def\<close>)
  then show ?thesis by (simp add: calculateAdaptiveThreshold_double_def)
qed

text \<open>
  C4 fails on the code. On a map of 64 entries that all hold the float
  197.10499572753906 (= 12917473 / 65536), the running sum of squares is rounded, the
  variance \<open>sumSq / count - mean * mean\<close> comes out as \<open>-2^-35\<close>, \<open>Math.sqrt\<close> of it is
  \<open>NaN\<close> and so is the result, where the claim gives
  \<open>max (40, mean + 1.5 * stdDev) = 197.10499572753906\<close>.
\<close>

theorem calculateAdaptiveThreshold_double_nan:
  "calculateAdaptiveThreshold_double CONFIG uniform_map 8 8 = None
   \<and> max (brightnessThreshold CONFIG)
         (spec_mean (above_noise_floor uniform_map)
            + 1.5 * spec_stdDev (above_noise_floor uniform_map))
       = 12917473 / 65536"
proof -
  have "calculateAdaptiveThreshold_double CONFIG uniform_map 8 8 = None"
    unfolding calculateAdaptiveThreshold_double_def uniform_map_sums prod.case
    by (simp add: to_double_def binade_def pow2_def round_half_even_def Let_def)
  then show ?thesis using uniform_map_claimed by simp
qed

end
